theory Spec2Isabelle
  imports Complex_Main "HOL-Library.Multiset" "HOL-Library.List_Lexorder"
begin

section \<open>Data model\<close>

text \<open>
  A tableau is a list of rows, a tableau tuple a list of tableaux (its components).
  Entries are Python integers.  A cell is a triple (component, row, column).
\<close>

type_synonym tableau = "int list list"
type_synonym tableau_tuple = "tableau list"

text \<open>
  The exceptions the code raises, one constructor per raise statement:
  \<^item> \<open>IndexError_cell_not_contained\<close>: \<^verbatim>\<open>IndexError("the cell (k, r, c) is not contained in the tableau")\<close>
  \<^item> \<open>IndexError_out_of_range\<close>: the IndexError of Python's own subscript
  \<^item> \<open>IndexError_not_addable\<close>: \<^verbatim>\<open>IndexError("(k, r, c) is not an addable cell of the tableau")\<close>
  \<^item> \<open>ValueError_must_be_contained\<close>: \<^verbatim>\<open>ValueError("k must be contained in the tableaux")\<close>
  \<^item> \<open>ValueError_not_row_strict\<close>: \<^verbatim>\<open>ValueError("tableaux must be row strict")\<close>
  \<^item> \<open>ValueError_not_bijection\<close>: \<^verbatim>\<open>ValueError("entries must be in bijection with {1,2,...,n}")\<close>
  \<^item> \<open>ValueError_not_column_strict\<close>: \<^verbatim>\<open>ValueError("tableaux must be column strict")\<close>
  \<^item> \<open>ValueError_not_valid\<close>: \<^verbatim>\<open>ValueError("not a valid row standard tableau tuple")\<close>
  \<^item> \<open>ValueError_not_an_element\<close>: \<^verbatim>\<open>ValueError("t is not an element of P")\<close>
  \<^item> \<open>ValueError_size_mismatch\<close>: \<^verbatim>\<open>ValueError("the size of the shape and the length of the residue defence must coincide")\<close>
  \<^item> \<open>ValueError_not_in_list\<close>: the ValueError of Python's own \<^verbatim>\<open>list.index\<close>
\<close>

datatype error =
    IndexError_cell_not_contained
  | IndexError_out_of_range
  | IndexError_not_addable
  | ValueError_must_be_contained
  | ValueError_not_row_strict
  | ValueError_not_bijection
  | ValueError_not_column_strict
  | ValueError_not_valid
  | ValueError_not_an_element
  | ValueError_size_mismatch
  | ValueError_not_in_list

fun is_IndexError :: "error \<Rightarrow> bool" where
  "is_IndexError IndexError_cell_not_contained = True"
| "is_IndexError IndexError_out_of_range = True"
| "is_IndexError IndexError_not_addable = True"
| "is_IndexError _ = False"

fun is_ValueError :: "error \<Rightarrow> bool" where
  "is_ValueError e = (\<not> is_IndexError e)"

subsection \<open>Python subscripts\<close>

text \<open>
  \<^verbatim>\<open>xs[i]\<close> on a list or tuple: a negative index counts from the end, and an index out
  of range raises IndexError.
\<close>

definition py_getitem :: "'a list \<Rightarrow> int \<Rightarrow> error + 'a" where
  "py_getitem xs i =
     (if 0 \<le> i \<and> i < int (length xs) then Inr (xs ! nat i)
      else if i < 0 \<and> - int (length xs) \<le> i then Inr (xs ! nat (int (length xs) + i))
      else Inl IndexError_out_of_range)"

text \<open>\<^verbatim>\<open>row.index(k)\<close>: the position of the first occurrence, or ValueError (here \<open>None\<close>).\<close>

fun py_index :: "int list \<Rightarrow> int \<Rightarrow> nat option" where
  "py_index [] k = None"
| "py_index (x # xs) k = (if x = k then Some 0 else map_option Suc (py_index xs k))"

section \<open>Cell addressing\<close>




section \<open>Content of an entry\<close>

text \<open>
  \<open>TableauTuple.content\<close>.  The loop body evaluates \<^verbatim>\<open>multicharge[l]\<close> before
  \<^verbatim>\<open>row.index(k)\<close>; only the ValueError of \<open>index\<close> is caught, an IndexError of
  \<^verbatim>\<open>multicharge[l]\<close> leaves the function.  \<open>content_rows\<close> is the inner loop over the
  rows of component \<open>l\<close> (\<open>None\<close>: the loop ended without returning), \<open>content_comps\<close>
  the outer loop over the components.
\<close>

fun content_rows :: "int list \<Rightarrow> nat \<Rightarrow> nat \<Rightarrow> tableau \<Rightarrow> int \<Rightarrow> (error + int) option" where
  "content_rows multicharge l r [] k = None"
| "content_rows multicharge l r (row # rows) k =
     (case py_getitem multicharge (int l) of
        Inl e \<Rightarrow> Some (Inl e)
      | Inr a \<Rightarrow> (case py_index row k of
                    Some c \<Rightarrow> Some (Inr (a - int r + int c))
                  | None \<Rightarrow> content_rows multicharge l (Suc r) rows k))"

fun content_comps :: "int list \<Rightarrow> nat \<Rightarrow> tableau_tuple \<Rightarrow> int \<Rightarrow> error + int" where
  "content_comps multicharge l [] k = Inl ValueError_must_be_contained"
| "content_comps multicharge l (tableau # rest) k =
     (case content_rows multicharge l 0 tableau k of
        Some res \<Rightarrow> res
      | None \<Rightarrow> content_comps multicharge (Suc l) rest k)"

definition content :: "tableau_tuple \<Rightarrow> int \<Rightarrow> int list \<Rightarrow> error + int" where
  "content t k multicharge = content_comps multicharge 0 t k"

text \<open>The cell \<open>(l, r, c)\<close> of \<open>t\<close> holds the value \<open>k\<close>.\<close>

definition value_at :: "tableau_tuple \<Rightarrow> nat \<Rightarrow> nat \<Rightarrow> nat \<Rightarrow> int \<Rightarrow> bool" where
  "value_at t l r c k \<longleftrightarrow>
     l < length t \<and> r < length (t ! l) \<and> c < length (t ! l ! r) \<and> t ! l ! r ! c = k"

text \<open>
  \<open>(l, r, c)\<close> is the first cell holding \<open>k\<close> when the components are read in order,
  the rows of a component from the top and a row from the left.
\<close>

definition first_cell_with :: "tableau_tuple \<Rightarrow> nat \<Rightarrow> nat \<Rightarrow> nat \<Rightarrow> int \<Rightarrow> bool" where
  "first_cell_with t l r c k \<longleftrightarrow>
     value_at t l r c k \<and>
     (\<forall>l' < l. \<forall>row \<in> set (t ! l'). k \<notin> set row) \<and>
     (\<forall>r' < r. k \<notin> set (t ! l ! r')) \<and>
     (\<forall>c' < c. t ! l ! r ! c' \<noteq> k)"

text \<open>The value \<open>k\<close> occurs nowhere in \<open>t\<close>.\<close>

definition absent :: "tableau_tuple \<Rightarrow> int \<Rightarrow> bool" where
  "absent t k \<longleftrightarrow> (\<forall>tableau \<in> set t. \<forall>row \<in> set tableau. k \<notin> set row)"

section \<open>Construction of a tableau tuple from raw data\<close>

text \<open>
  The argument of \<open>TableauTuple(t)\<close> is any Python value: nested lists whose innermost
  items need not be integers ("the Tableau class is very general in that it allows the
  entries of a tableau to be almost anything, including lists").
\<close>

datatype pyval = PInt int | PList "pyval list"

text \<open>
  What the constructor returns: a bare single tableau (an element of \<open>Tableaux_all\<close>) or
  a tableau tuple (an element of \<open>TableauTuples_all\<close>), each with its rows of entries.
\<close>

datatype tableau_object =
    Tableau_obj "pyval list list"
  | TableauTuple_obj "pyval list list list"

datatype classcall_error = Not_a_tableau

text \<open>
  Modelled from the spec: the single-tableau primitive \<open>Tableau(s)\<close> (its module
  \<^verbatim>\<open>sage/combinat/tableau.py\<close> is not among the sources).  It accepts a list of rows,
  each row a list, whose lengths are weakly decreasing and positive (a partition shape),
  and fails otherwise.
\<close>

fun row_items :: "pyval \<Rightarrow> pyval list option" where
  "row_items (PList xs) = Some xs"
| "row_items (PInt _) = None"

fun all_rows :: "pyval list \<Rightarrow> pyval list list option" where
  "all_rows [] = Some []"
| "all_rows (s # ss) =
     (case row_items s of None \<Rightarrow> None
      | Some r \<Rightarrow> (case all_rows ss of None \<Rightarrow> None | Some rs \<Rightarrow> Some (r # rs)))"

definition partition_shaped :: "'a list list \<Rightarrow> bool" where
  "partition_shaped rows \<longleftrightarrow> sorted_wrt (\<lambda>a b. length b \<le> length a) rows \<and> [] \<notin> set rows"

definition Tableau :: "pyval \<Rightarrow> classcall_error + pyval list list" where
  "Tableau s =
     (case s of
        PInt _ \<Rightarrow> Inl Not_a_tableau
      | PList items \<Rightarrow>
          (case all_rows items of
             None \<Rightarrow> Inl Not_a_tableau
           | Some rows \<Rightarrow> if partition_shaped rows then Inr rows else Inl Not_a_tableau))"

text \<open>\<^verbatim>\<open>[Tableau(s) for s in t]\<close>: \<open>None\<close> when \<open>t\<close> is not iterable or some \<open>Tableau(s)\<close> fails.\<close>

fun Tableau_each :: "pyval list \<Rightarrow> pyval list list list option" where
  "Tableau_each [] = Some []"
| "Tableau_each (s # ss) =
     (case Tableau s of Inl _ \<Rightarrow> None
      | Inr tab \<Rightarrow> (case Tableau_each ss of None \<Rightarrow> None | Some tabs \<Rightarrow> Some (tab # tabs)))"

text \<open>
  The argument of \<open>TableauTuple.__classcall_private__\<close>: an object that is a tableau or
  a tableau tuple already, or raw data.
\<close>

datatype classcall_arg = Object tableau_object | Raw pyval

text \<open>The last three lines of the constructor: one component makes a bare tableau.\<close>

definition by_length :: "pyval list list list \<Rightarrow> tableau_object" where
  "by_length tabs = (case tabs of [tab] \<Rightarrow> Tableau_obj tab | _ \<Rightarrow> TableauTuple_obj tabs)"

text \<open>
  \<open>TableauTuple.__classcall_private__\<close>.  When neither reading of \<open>t\<close> succeeds, \<open>t\<close> is
  left as it was and the element constructor that follows raises on the same data.
\<close>

definition TableauTuple_classcall :: "classcall_arg \<Rightarrow> classcall_error + tableau_object" where
  "TableauTuple_classcall a =
     (case a of
        Object x \<Rightarrow> Inr x
      | Raw t \<Rightarrow>
          if t = PList [] \<or> t = PList [PList []] then Inr (Tableau_obj [])
          else (case (case t of PInt _ \<Rightarrow> None | PList items \<Rightarrow> Tableau_each items) of
                  Some tabs \<Rightarrow> Inr (by_length tabs)
                | None \<Rightarrow> (case Tableau t of
                              Inr tab \<Rightarrow> Inr (by_length [tab])
                            | Inl e \<Rightarrow> Inl e)))"

text \<open>
  \<open>level()\<close>: the number of components of a tableau tuple; modelled from the spec for the
  bare tableau ("a 1-level tuple is represented as the bare single-tableau object").
\<close>

fun level :: "tableau_object \<Rightarrow> nat" where
  "level (Tableau_obj _) = 1"
| "level (TableauTuple_obj tabs) = length tabs"

fun object_entries :: "tableau_object \<Rightarrow> pyval list" where
  "object_entries (Tableau_obj tab) = concat tab"
| "object_entries (TableauTuple_obj tabs) = concat (concat tabs)"

section \<open>Row standard and standard tableau tuples\<close>

text \<open>
  Modelled from the spec: the single-tableau primitives \<open>is_row_strict\<close>,
  \<open>is_column_strict\<close> and \<open>entries\<close> of \<^verbatim>\<open>sage/combinat/tableau.py\<close>, which is
  not among the sources.  Row strict: the entries of every row strictly increase from left
  to right.  Column strict: the entries of every column strictly increase from top to
  bottom; the columns of a tableau are the rows of its transpose.
\<close>

definition Tableau_is_row_strict :: "tableau \<Rightarrow> bool" where
  "Tableau_is_row_strict s \<longleftrightarrow> (\<forall>row \<in> set s. sorted_wrt (<) row)"

definition Tableau_is_column_strict :: "tableau \<Rightarrow> bool" where
  "Tableau_is_column_strict s \<longleftrightarrow> (\<forall>col \<in> set (transpose s). sorted_wrt (<) col)"

definition Tableau_entries :: "tableau \<Rightarrow> int list" where
  "Tableau_entries s = concat s"

text \<open>
  The objects the element constructors build: a tableau tuple with its components, a bare
  single tableau, or the tableau that \<^verbatim>\<open>Tableau(t)\<close> makes of a list \<open>t\<close> of components
  whose rows it takes as entries.
\<close>

datatype element =
    Tuple tableau_tuple
  | Bare tableau
  | Nested tableau_tuple

text \<open>
  \<open>RowStandardTableauTuple.__init__(parent, t, check)\<close>.  \<^verbatim>\<open>[Tableau(s) for s in t]\<close>
  succeeds when every component has a partition shape.  Otherwise \<^verbatim>\<open>Tableau(t)\<close> is
  tried, which reads each component as one row and its rows as entries; Python compares
  such entries (lists) lexicographically, and a sorted list of them never equals
  \<^verbatim>\<open>list(range(1, n + 1))\<close>.
\<close>

definition RowStandardTableauTuple_init :: "tableau_tuple \<Rightarrow> bool \<Rightarrow> error + element" where
  "RowStandardTableauTuple_init t check =
     (if \<forall>s \<in> set t. partition_shaped s then
        (if check then
           (if \<not> (\<forall>s \<in> set t. Tableau_is_row_strict s) then Inl ValueError_not_row_strict
            else if sort (concat (map Tableau_entries t))
                      \<noteq> map int [1 ..< length (concat (map Tableau_entries t)) + 1]
                 then Inl ValueError_not_bijection
            else Inr (Tuple t))
         else Inr (Tuple t))
      else if partition_shaped t then
        (if check then
           (if \<not> (\<forall>row \<in> set t. sorted_wrt (<) row) then Inl ValueError_not_row_strict
            else Inl ValueError_not_bijection)
         else Inr (Nested t))
      else Inl ValueError_not_valid)"

text \<open>
  \<open>StandardTableauTuple.__init__(parent, t, check)\<close>: the checks of the row standard
  constructor first, then column strictness of every component.
\<close>

definition StandardTableauTuple_init :: "tableau_tuple \<Rightarrow> bool \<Rightarrow> error + element" where
  "StandardTableauTuple_init t check =
     (case RowStandardTableauTuple_init t check of
        Inl e \<Rightarrow> Inl e
      | Inr x \<Rightarrow>
          (if check then
             (case x of
                Tuple ts \<Rightarrow>
                  if \<not> (\<forall>s \<in> set ts. Tableau_is_column_strict s)
                  then Inl ValueError_not_column_strict else Inr x
              | _ \<Rightarrow> Inr x)
           else Inr x))"

text \<open>The invariants of the claims, stated on the data.\<close>

definition tuple_of_tableaux :: "tableau_tuple \<Rightarrow> bool" where
  "tuple_of_tableaux t \<longleftrightarrow> (\<forall>s \<in> set t. partition_shaped s)"

definition entries :: "tableau_tuple \<Rightarrow> int list" where
  "entries t = concat (concat t)"

definition rows_increasing :: "tableau_tuple \<Rightarrow> bool" where
  "rows_increasing t \<longleftrightarrow> (\<forall>s \<in> set t. \<forall>row \<in> set s. sorted_wrt (<) row)"

definition columns_increasing :: "tableau_tuple \<Rightarrow> bool" where
  "columns_increasing t \<longleftrightarrow>
     (\<forall>s \<in> set t. \<forall>c < length (concat s). sorted_wrt (<) (map (\<lambda>row. row ! c) (filter (\<lambda>row. c < length row) s)))"

definition entries_one_to_n :: "tableau_tuple \<Rightarrow> bool" where
  "entries_one_to_n t \<longleftrightarrow> mset (entries t) = mset_set {1 .. int (length (entries t))}"

section \<open>Conjugation\<close>






text \<open>
  Modelled from the spec: \<^verbatim>\<open>==\<close> compares by value (the comparison itself belongs to the
  element framework, not among the sources).  A tuple of level 1 and the bare tableau of
  its only component are the same value, and so are the empty tableau and the tuples
  \<open>[]\<close> and \<open>[[]]\<close>, which the constructors map to it.
\<close>

fun element_value :: "element \<Rightarrow> tableau_tuple + tableau_tuple" where
  "element_value (Tuple t) = Inl (if t = [[]] then [] else t)"
| "element_value (Bare s) = Inl (if s = [] then [] else [s])"
| "element_value (Nested t) = Inr t"

definition equal_by_value :: "element \<Rightarrow> element \<Rightarrow> bool" where
  "equal_by_value x y \<longleftrightarrow> element_value x = element_value y"



section \<open>Tableau tuples as objects in a store\<close>

text \<open>
  To state that an operation leaves its receiver unchanged, the Python objects live in a
  store: a list of cells, an address being an index into it.  A cell is a sequence of
  integers (a row) or a sequence of references (the rows of a tableau, the components of a
  tuple).  Allocation appends a cell; an assignment to an item or an \<^verbatim>\<open>append\<close> replaces the
  cell at an address.
\<close>

type_synonym addr = nat

datatype cell = IntSeq "int list" | RefSeq "addr list"

type_synonym store = "cell list"

definition alloc :: "store \<Rightarrow> cell \<Rightarrow> addr \<times> store" where
  "alloc h x = (length h, h @ [x])"

definition read_ints :: "store \<Rightarrow> addr \<Rightarrow> int list option" where
  "read_ints h a =
     (if a < length h then (case h ! a of IntSeq xs \<Rightarrow> Some xs | RefSeq _ \<Rightarrow> None) else None)"

definition read_refs :: "store \<Rightarrow> addr \<Rightarrow> addr list option" where
  "read_refs h a =
     (if a < length h then (case h ! a of RefSeq rs \<Rightarrow> Some rs | IntSeq _ \<Rightarrow> None) else None)"

fun read_all :: "(addr \<Rightarrow> 'a option) \<Rightarrow> addr list \<Rightarrow> 'a list option" where
  "read_all f [] = Some []"
| "read_all f (a # as) =
     (case f a of None \<Rightarrow> None
      | Some x \<Rightarrow> (case read_all f as of None \<Rightarrow> None | Some xs \<Rightarrow> Some (x # xs)))"

definition read_tableau :: "store \<Rightarrow> addr \<Rightarrow> tableau option" where
  "read_tableau h a =
     (case read_refs h a of None \<Rightarrow> None | Some rs \<Rightarrow> read_all (read_ints h) rs)"

text \<open>The tableau tuple an address stands for: its components, their rows, their entries.\<close>

definition read_tuple :: "store \<Rightarrow> addr \<Rightarrow> tableau_tuple option" where
  "read_tuple h a =
     (case read_refs h a of None \<Rightarrow> None | Some cs \<Rightarrow> read_all (read_tableau h) cs)"

subsection \<open>Building new objects\<close>

fun new_rows :: "store \<Rightarrow> tableau \<Rightarrow> addr list \<times> store" where
  "new_rows h [] = ([], h)"
| "new_rows h (row # rows) =
     (case alloc h (IntSeq row) of (a, h1) \<Rightarrow>
        (case new_rows h1 rows of (as, h2) \<Rightarrow> (a # as, h2)))"

definition new_tableau :: "store \<Rightarrow> tableau \<Rightarrow> addr \<times> store" where
  "new_tableau h s = (case new_rows h s of (rs, h1) \<Rightarrow> alloc h1 (RefSeq rs))"

fun new_tableaux :: "store \<Rightarrow> tableau_tuple \<Rightarrow> addr list \<times> store" where
  "new_tableaux h [] = ([], h)"
| "new_tableaux h (s # ss) =
     (case new_tableau h s of (a, h1) \<Rightarrow>
        (case new_tableaux h1 ss of (as, h2) \<Rightarrow> (a # as, h2)))"

definition new_tuple :: "store \<Rightarrow> tableau_tuple \<Rightarrow> addr \<times> store" where
  "new_tuple h t = (case new_tableaux h t of (cs, h1) \<Rightarrow> alloc h1 (RefSeq cs))"

text \<open>
  \<open>TableauTuple.to_list\<close>: \<^verbatim>\<open>[t.to_list() for t in self]\<close>, a new list of what
  \<open>Tableau.to_list\<close> returns.  Modelled from the spec: \<open>Tableau.to_list\<close> (not among the
  sources) returns the rows of the tableau as new lists.
\<close>

definition to_list :: "store \<Rightarrow> addr \<Rightarrow> (addr \<times> store) option" where
  "to_list h self = (case read_tuple h self of None \<Rightarrow> None | Some t \<Rightarrow> Some (new_tuple h t))"

text \<open>
  The element constructors at the end of each operation (\<^verbatim>\<open>self.parent()(tab)\<close>, the element
  class, \<open>TableauTuple(tab)\<close>) differ in what they validate and in the class of the result;
  each of them builds its element from the data of \<open>tab\<close>: new tableaux with new rows.
\<close>

definition construct :: "store \<Rightarrow> addr \<Rightarrow> (error + addr) \<times> store" where
  "construct h tab =
     (case read_tuple h tab of
        None \<Rightarrow> (Inl ValueError_not_valid, h)
      | Some t \<Rightarrow> (case new_tuple h t of (b, h1) \<Rightarrow> (Inr b, h1)))"

subsection \<open>\<open>add_entry\<close>\<close>

text \<open>The position a Python index stands for in a sequence of length \<open>n\<close>, if any.\<close>

definition py_pos :: "nat \<Rightarrow> int \<Rightarrow> nat option" where
  "py_pos n i =
     (if 0 \<le> i \<and> i < int n then Some (nat i)
      else if i < 0 \<and> - int n \<le> i then Some (nat (int n + i))
      else None)"

text \<open>
  \<^verbatim>\<open>tab[k][r][c] = m\<close>: two subscripts, then the assignment to an item of the row; \<open>None\<close>
  is the IndexError.
\<close>

definition set_item :: "store \<Rightarrow> addr \<Rightarrow> int \<Rightarrow> int \<Rightarrow> int \<Rightarrow> int \<Rightarrow> store option" where
  "set_item h tab k r c m =
     (case read_refs h tab of None \<Rightarrow> None | Some cs \<Rightarrow>
      (case py_pos (length cs) k of None \<Rightarrow> None | Some k' \<Rightarrow>
       (case read_refs h (cs ! k') of None \<Rightarrow> None | Some rs \<Rightarrow>
        (case py_pos (length rs) r of None \<Rightarrow> None | Some r' \<Rightarrow>
         (case read_ints h (rs ! r') of None \<Rightarrow> None | Some row \<Rightarrow>
          (case py_pos (length row) c of None \<Rightarrow> None | Some c' \<Rightarrow>
             Some (h[rs ! r' := IntSeq (row[c' := m])])))))))"

text \<open>
  Modelled from the spec: the shape of a tableau tuple (the row lengths of its components)
  and the addable cells of a shape, those whose addition keeps every component a partition:
  the end of a row that is shorter than the row above it (or is the first row), and the
  start of a new row below the last one.
\<close>

definition shape :: "tableau_tuple \<Rightarrow> nat list list" where
  "shape t = map (map length) t"

definition addable_cells :: "nat list list \<Rightarrow> (nat \<times> nat \<times> nat) list" where
  "addable_cells mu =
     concat (map (\<lambda>k.
        map (\<lambda>r. (k, r, mu ! k ! r))
            (filter (\<lambda>r. r = 0 \<or> mu ! k ! r < mu ! k ! (r - 1)) [0 ..< length (mu ! k)])
        @ [(k, length (mu ! k), 0)])
      [0 ..< length mu])"

text \<open>
  The handler of the IndexError in \<open>add_entry\<close>, for an addable cell: \<^verbatim>\<open>tab[k].append([])\<close>
  when the row is new, then \<^verbatim>\<open>tab[k][r].append(m)\<close>.
\<close>

definition append_entry :: "store \<Rightarrow> addr \<Rightarrow> nat \<Rightarrow> nat \<Rightarrow> int \<Rightarrow> store option" where
  "append_entry h tab k r m =
     (case read_refs h tab of None \<Rightarrow> None | Some cs \<Rightarrow>
      if length cs \<le> k then None else
      (case read_refs h (cs ! k) of None \<Rightarrow> None | Some rs \<Rightarrow>
       (case (if r = length rs
              then (case alloc h (IntSeq []) of (a, h1) \<Rightarrow> (rs @ [a], h1[cs ! k := RefSeq (rs @ [a])]))
              else (rs, h)) of (rs', h2) \<Rightarrow>
          if length rs' \<le> r then None else
          (case read_ints h2 (rs' ! r) of None \<Rightarrow> None
           | Some row \<Rightarrow> Some (h2[rs' ! r := IntSeq (row @ [m])])))))"

text \<open>\<open>TableauTuple.add_entry(cell, m)\<close> with \<open>cell = (k, r, c)\<close>.\<close>

definition add_entry :: "store \<Rightarrow> addr \<Rightarrow> int \<times> int \<times> int \<Rightarrow> int \<Rightarrow> (error + addr) \<times> store" where
  "add_entry h self cell m =
     (case cell of (k, r, c) \<Rightarrow>
      (case to_list h self of
         None \<Rightarrow> (Inl ValueError_not_valid, h)
       | Some (tab, h1) \<Rightarrow>
           (case set_item h1 tab k r c m of
              Some h2 \<Rightarrow> construct h2 tab
            | None \<Rightarrow>
                (case read_tuple h1 self of
                   None \<Rightarrow> (Inl ValueError_not_valid, h1)
                 | Some t \<Rightarrow>
                     if 0 \<le> k \<and> 0 \<le> r \<and> 0 \<le> c \<and> (nat k, nat r, nat c) \<in> set (addable_cells (shape t))
                     then (case append_entry h1 tab (nat k) (nat r) m of
                             None \<Rightarrow> (Inl IndexError_out_of_range, h1)
                           | Some h2 \<Rightarrow> construct h2 tab)
                     else (Inl IndexError_not_addable, h1)))))"

subsection \<open>\<open>restrict\<close>\<close>

text \<open>
  Modelled from the spec: \<open>Tableau.restrict(m)\<close> (not among the sources) drops all cells
  with an entry greater than \<open>m\<close> and returns a new tableau.
\<close>

definition Tableau_restrict :: "tableau \<Rightarrow> int \<Rightarrow> tableau" where
  "Tableau_restrict s m = filter (\<lambda>row. row \<noteq> []) (map (filter (\<lambda>y. y \<le> m)) s)"

text \<open>
  \<open>TableauTuple.restrict(m)\<close>; \<open>None\<close> for \<open>m\<close> is the default, one less than the size.
  The list \<open>tab\<close> of the restricted components is a new list of new tableaux.
\<close>

definition restrict :: "store \<Rightarrow> addr \<Rightarrow> int option \<Rightarrow> (error + addr) \<times> store" where
  "restrict h self m =
     (case read_tuple h self of
        None \<Rightarrow> (Inl ValueError_not_valid, h)
      | Some t \<Rightarrow>
          (let m' = (case m of None \<Rightarrow> int (length (concat (concat t))) - 1 | Some v \<Rightarrow> v)
           in case new_tuple h (map (\<lambda>s. Tableau_restrict s m') t) of
                (tab, h1) \<Rightarrow> construct h1 tab))"

subsection \<open>\<open>symmetric_group_action_on_entries\<close>\<close>

text \<open>\<^verbatim>\<open>[w[entry - 1] for entry in row]\<close>; \<open>None\<close> is the IndexError of the subscript.\<close>

fun act_row :: "int list \<Rightarrow> int list \<Rightarrow> int list option" where
  "act_row w [] = Some []"
| "act_row w (e # es) =
     (case py_pos (length w) (e - 1) of None \<Rightarrow> None
      | Some p \<Rightarrow> (case act_row w es of None \<Rightarrow> None | Some vs \<Rightarrow> Some (w ! p # vs)))"

fun act_rows :: "int list \<Rightarrow> tableau \<Rightarrow> tableau option" where
  "act_rows w [] = Some []"
| "act_rows w (row # rows) =
     (case act_row w row of None \<Rightarrow> None
      | Some v \<Rightarrow> (case act_rows w rows of None \<Rightarrow> None | Some vs \<Rightarrow> Some (v # vs)))"

fun act_tableaux :: "int list \<Rightarrow> tableau_tuple \<Rightarrow> tableau_tuple option" where
  "act_tableaux w [] = Some []"
| "act_tableaux w (s # ss) =
     (case act_rows w s of None \<Rightarrow> None
      | Some v \<Rightarrow> (case act_tableaux w ss of None \<Rightarrow> None | Some vs \<Rightarrow> Some (v # vs)))"

text \<open>
  \<open>TableauTuple.symmetric_group_action_on_entries(w)\<close>: \<open>w\<close> is extended by the identity up
  to the size (a new list), the nested comprehension builds new lists, and the parent
  (or, on a ValueError, \<open>TableauTuples()\<close>) builds the element.
\<close>

definition symmetric_group_action_on_entries ::
    "store \<Rightarrow> addr \<Rightarrow> int list \<Rightarrow> (error + addr) \<times> store" where
  "symmetric_group_action_on_entries h self w =
     (case read_tuple h self of
        None \<Rightarrow> (Inl ValueError_not_valid, h)
      | Some t \<Rightarrow>
          (let w' = w @ map (\<lambda>i. int i + 1) [length w ..< length (concat (concat t))]
           in case act_tableaux w' t of
                None \<Rightarrow> (Inl IndexError_out_of_range, h)
              | Some d \<Rightarrow> (case new_tuple h d of (tab, h1) \<Rightarrow> construct h1 tab)))"

text \<open>The store \<open>h'\<close> keeps every cell of \<open>h\<close> as it was.\<close>

definition keeps :: "store \<Rightarrow> store \<Rightarrow> bool" where
  "keeps h h' \<longleftrightarrow> length h \<le> length h' \<and> take (length h) h' = h"

text \<open>The cells a new object consists of lie beyond the store \<open>h0\<close> it was added to.\<close>

definition fresh_tableau :: "store \<Rightarrow> store \<Rightarrow> addr \<Rightarrow> bool" where
  "fresh_tableau h0 h a \<longleftrightarrow>
     length h0 \<le> a \<and> (\<forall>rs. read_refs h a = Some rs \<longrightarrow> (\<forall>r \<in> set rs. length h0 \<le> r))"

definition fresh_tuple :: "store \<Rightarrow> store \<Rightarrow> addr \<Rightarrow> bool" where
  "fresh_tuple h0 h a \<longleftrightarrow>
     length h0 \<le> a \<and> (\<forall>cs. read_refs h a = Some cs \<longrightarrow> (\<forall>c \<in> set cs. fresh_tableau h0 h c))"

section \<open>Residue sequences and their enumerators\<close>



text \<open>Modelled from the spec: \<open>cells()\<close> of a shape enumerates all its cells.\<close>

definition cells :: "nat list list \<Rightarrow> (nat \<times> nat \<times> nat) list" where
  "cells mu =
     concat (map (\<lambda>k. concat (map (\<lambda>r. map (\<lambda>c. (k, r, c)) [0 ..< mu ! k ! r])
                                      [0 ..< length (mu ! k)]))
                 [0 ..< length mu])"




subsection \<open>Generators\<close>

text \<open>
  What a generator produces: the values it yields, in order, and the exception that ended it,
  if one did.
\<close>

type_synonym 'a gen = "'a list \<times> error option"





subsection \<open>Standard tableau tuples with a given residue sequence\<close>


subsection \<open>Standard tableau tuples with a given residue sequence and shape\<close>



definition shape_size :: "nat list list \<Rightarrow> nat" where
  "shape_size mu = sum_list (map sum_list mu)"


subsection \<open>Row standard tableau tuples with a given residue sequence\<close>



fun prefix_sums :: "nat \<Rightarrow> nat list \<Rightarrow> nat list" where
  "prefix_sums a [] = [a]"
| "prefix_sums a (x # xs) = a # prefix_sums (a + x) xs"







subsection \<open>Notions used in the proofs about the residue enumerators\<close>




text \<open>The cell is the end of the row \<open>r\<close> of component \<open>k\<close>, or the start of a new row.\<close>

definition row_end :: "tableau_tuple \<Rightarrow> nat \<times> nat \<times> nat \<Rightarrow> bool" where
  "row_end t cell \<longleftrightarrow>
     (case cell of (k, r, c) \<Rightarrow>
        k < length t \<and> (r < length (t ! k) \<and> c = length (t ! k ! r) \<or> r = length (t ! k) \<and> c = 0))"

text \<open>The position in \<open>concat xss\<close> at which the items of \<open>xss ! c\<close> start.\<close>

definition start :: "'a list list \<Rightarrow> nat \<Rightarrow> nat" where
  "start xss c = sum_list (take c (map length xss))"


section \<open>The standard tableau tuples of a shape\<close>

text \<open>
  \<open>StandardTableauTuples_shape.__iter__\<close>.  The tableaux are kept as the flat list \<open>tab\<close> of
  their entries along the rows; the entries, the column indices and the positions are
  natural numbers (they come from \<^verbatim>\<open>range\<close> and from loop counters).  A subscript out of
  range raises IndexError, \<^verbatim>\<open>list.index\<close> of a missing item raises ValueError.
\<close>

definition and_then :: "error + 'a \<Rightarrow> ('a \<Rightarrow> error + 'b) \<Rightarrow> error + 'b" where
  "and_then x f = (case x of Inl e \<Rightarrow> Inl e | Inr v \<Rightarrow> f v)"

definition get_at :: "'a list \<Rightarrow> nat \<Rightarrow> error + 'a" where
  "get_at xs i = (if i < length xs then Inr (xs ! i) else Inl IndexError_out_of_range)"

definition set_at :: "'a list \<Rightarrow> nat \<Rightarrow> 'a \<Rightarrow> error + 'a list" where
  "set_at xs i v = (if i < length xs then Inr (xs[i := v]) else Inl IndexError_out_of_range)"

fun index_in :: "nat list \<Rightarrow> nat \<Rightarrow> error + nat" where
  "index_in [] v = Inl ValueError_not_in_list"
| "index_in (x # xs) v = (if x = v then Inr 0 else and_then (index_in xs v) (\<lambda>i. Inr (Suc i)))"

text \<open>\<^verbatim>\<open>for x in xs: (body)\<close> on a state, the body may raise.\<close>

fun for_loop :: "'a list \<Rightarrow> ('a \<Rightarrow> 's \<Rightarrow> error + 's) \<Rightarrow> 's \<Rightarrow> error + 's" where
  "for_loop [] body s = Inr s"
| "for_loop (x # xs) body s = and_then (body x s) (for_loop xs body)"

text \<open>\<^verbatim>\<open>xs[a:b]\<close> for indices that are not negative.\<close>

definition py_slice :: "'a list \<Rightarrow> nat \<Rightarrow> nat \<Rightarrow> 'a list" where
  "py_slice xs a b = take (b - a) (drop a xs)"

text \<open>\<^verbatim>\<open>tab = list(range(1, n + 1))\<close>\<close>

definition initial_tab :: "nat \<Rightarrow> nat list" where
  "initial_tab n = [1 ..< n + 1]"

text \<open>
  The end points: \<^verbatim>\<open>cclen[c][r + 1] = cclen[c][r] + mu[c][r]\<close> and
  \<^verbatim>\<open>clen[c + 1] = clen[c] + cclen[c][-1]\<close>, both starting from zeros.
\<close>

definition cclen :: "nat list list \<Rightarrow> nat list list" where
  "cclen mu = map (prefix_sums 0) mu"

definition clen :: "nat list list \<Rightarrow> nat list" where
  "clen mu = prefix_sums 0 (map last (cclen mu))"

definition tableau_from_list :: "nat list list \<Rightarrow> nat list \<Rightarrow> nat list list list" where
  "tableau_from_list mu tab =
     map (\<lambda>c. map (\<lambda>r. py_slice (py_slice tab (clen mu ! c) (clen mu ! (c + 1)))
                          (cclen mu ! c ! r) (cclen mu ! c ! (r + 1)))
                 [0 ..< length (mu ! c)])
         [0 ..< length mu]"

text \<open>
  The loop that fills \<open>cols\<close> and \<open>mins\<close> from the initial tableau, its components taken from
  the last to the first; \<open>offset\<close> grows by the length of the first row of each component
  that has a row.
\<close>

definition init_cell ::
    "nat list list \<Rightarrow> nat \<Rightarrow> nat \<Rightarrow> nat \<Rightarrow> nat list \<times> nat list \<Rightarrow> error + nat list \<times> nat list" where
  "init_cell t offset row col cm =
     (case cm of (cols, mins) \<Rightarrow>
        and_then (set_at cols (t ! row ! col) (col + offset)) (\<lambda>cols'.
          case py_pos (length mins) (int (t ! row ! col) - 1) of
            None \<Rightarrow> Inl IndexError_out_of_range
          | Some p \<Rightarrow> Inr (cols', mins[p := row + col])))"

definition init_component ::
    "nat list list \<Rightarrow> nat \<Rightarrow> nat list \<times> nat list \<Rightarrow> error + nat list \<times> nat list" where
  "init_component t offset cm =
     for_loop [0 ..< length t]
       (\<lambda>row. for_loop [0 ..< length (t ! row)] (\<lambda>col. init_cell t offset row col)) cm"

fun init_components ::
    "nat list list list \<Rightarrow> nat \<Rightarrow> nat list \<times> nat list \<Rightarrow> error + nat list \<times> nat list" where
  "init_components [] offset cm = Inr cm"
| "init_components (t # ts) offset cm =
     and_then (init_component t offset cm)
       (init_components ts (if t \<noteq> [] then offset + length (t ! 0) else offset))"

definition init_cols_mins :: "nat \<Rightarrow> nat list list list \<Rightarrow> error + nat list \<times> nat list" where
  "init_cols_mins n initial_tableau =
     init_components (rev initial_tableau) 0 (replicate (n + 1) 0, replicate n 0)"

text \<open>\<^verbatim>\<open>flatten([[i + 1] * mu[i].size() for i in range(len(mu))])\<close>\<close>

definition component :: "nat list list \<Rightarrow> nat list" where
  "component mu = concat (map (\<lambda>i. replicate (sum_list (mu ! i)) (i + 1)) [0 ..< length mu])"

text \<open>
  \<open>max_row_in_component(tab, r)\<close>: the loop \<^verbatim>\<open>while c > 0\<close> and the function.  \<open>None\<close> is
  what Python returns when the loop ends without a \<^verbatim>\<open>return\<close>.  The function is called
  with \<^verbatim>\<open>r < len(cols)\<close>, so that \<^verbatim>\<open>cols[m]\<close> for \<^verbatim>\<open>m < r\<close> and \<^verbatim>\<open>cols[r]\<close> exist.
\<close>

fun max_row_loop :: "nat list list \<Rightarrow> nat list \<Rightarrow> nat list \<Rightarrow> nat \<Rightarrow> nat \<Rightarrow> error + nat option" where
  "max_row_loop mu tab cols r 0 = Inr None"
| "max_row_loop mu tab cols r (Suc c) =
     and_then (get_at (clen mu) c) (\<lambda>a.
     and_then (get_at (clen mu) (Suc c)) (\<lambda>b.
       if filter (\<lambda>m. m < r \<and> cols ! r < cols ! m) (py_slice tab a b) = []
       then max_row_loop mu tab cols r c
       else Inr (Some (last (filter (\<lambda>m. m < r \<and> cols ! r < cols ! m) (py_slice tab a b))))))"

definition max_row_in_component ::
    "nat list list \<Rightarrow> nat list \<Rightarrow> nat list \<Rightarrow> nat \<Rightarrow> error + nat option" where
  "max_row_in_component mu tab cols r =
     and_then (index_in tab r) (\<lambda>p.
     and_then (get_at (component mu) p) (\<lambda>c. max_row_loop mu tab cols r c))"

text \<open>\<^verbatim>\<open>while r < len(cols) and cols[r - 1] <= cols[r]: r += 1\<close>, started with \<open>r = 1\<close>.\<close>

function find_r :: "nat list \<Rightarrow> nat \<Rightarrow> nat" where
  "find_r cols r =
     (if r < length cols \<and> cols ! (r - 1) \<le> cols ! r then find_r cols (r + 1) else r)"
  by pat_completeness auto
termination
  by (relation "measure (\<lambda>(cols, r). length cols - r)") auto

declare find_r.simps [simp del]

text \<open>
  \<^verbatim>\<open>while t <= mins[i] or (tab[i] > r or i in changed): i += 1\<close>; the subscripts are
  evaluated in this order.
\<close>

function find_i :: "nat list \<Rightarrow> nat list \<Rightarrow> int list \<Rightarrow> nat \<Rightarrow> nat \<Rightarrow> nat \<Rightarrow> error + nat" where
  "find_i mins tab changed r t i =
     (if length mins \<le> i then Inl IndexError_out_of_range
      else if t \<le> mins ! i then find_i mins tab changed r t (i + 1)
      else if length tab \<le> i then Inl IndexError_out_of_range
      else if r < tab ! i \<or> int i \<in> set changed then find_i mins tab changed r t (i + 1)
      else Inr i)"
  by pat_completeness auto
termination
  by (relation "measure (\<lambda>(mins, tab, changed, r, t, i). length mins - i)") auto

declare find_i.simps [simp del]

text \<open>The loop \<^verbatim>\<open>for t in range(1, r)\<close> on \<open>new_tab\<close>, \<open>new_cols\<close> and \<open>changed\<close>.\<close>

definition place_entry ::
    "nat list \<Rightarrow> nat list \<Rightarrow> nat list \<Rightarrow> nat \<Rightarrow> nat \<Rightarrow> nat list \<times> nat list \<times> int list \<Rightarrow>
     error + nat list \<times> nat list \<times> int list" where
  "place_entry mins tab cols r t st =
     (case st of (new_tab, new_cols, changed) \<Rightarrow>
        and_then (find_i mins tab changed r t 0) (\<lambda>i.
        and_then (set_at new_tab i t) (\<lambda>new_tab'.
        and_then (get_at tab i) (\<lambda>v.
        and_then (get_at cols v) (\<lambda>c.
        and_then (set_at new_cols t c) (\<lambda>new_cols'.
        and_then (set_at changed (t - 1) (int i)) (\<lambda>changed'.
          Inr (new_tab', new_cols', changed'))))))))"

definition place ::
    "nat list \<Rightarrow> nat list \<Rightarrow> nat list \<Rightarrow> nat \<Rightarrow> nat list \<times> nat list \<times> int list \<Rightarrow>
     error + nat list \<times> nat list \<times> int list" where
  "place mins tab cols r st = for_loop [1 ..< r] (place_entry mins tab cols r) st"

text \<open>
  One round of \<^verbatim>\<open>while True\<close>: \<open>None\<close> for \<^verbatim>\<open>break\<close>, else the next \<open>tab\<close> and \<open>cols\<close>.  When
  \<open>max_row_in_component\<close> returns \<open>None\<close>, \<^verbatim>\<open>tab.index(s)\<close> raises the ValueError.
\<close>

definition next_tableau ::
    "nat list list \<Rightarrow> nat list \<Rightarrow> nat list \<Rightarrow> nat list \<Rightarrow> nat \<Rightarrow> error + (nat list \<times> nat list) option" where
  "next_tableau mu mins tab cols r =
     and_then (max_row_in_component mu tab cols r) (\<lambda>found.
       case found of
         None \<Rightarrow> Inl ValueError_not_in_list
       | Some s \<Rightarrow>
           and_then (index_in tab s) (\<lambda>p.
           and_then (set_at tab p r) (\<lambda>new_tab.
           and_then (get_at cols s) (\<lambda>cs.
           and_then (set_at cols r cs) (\<lambda>new_cols.
           and_then (set_at (replicate r (- 1)) (r - 1) (int p)) (\<lambda>changed.
           and_then (place mins tab cols r (new_tab, new_cols, changed))
             (\<lambda>st. Inr (Some (fst st, fst (snd st))))))))))"

definition advance ::
    "nat list list \<Rightarrow> nat list \<Rightarrow> nat list \<Rightarrow> nat list \<Rightarrow> error + (nat list \<times> nat list) option" where
  "advance mu mins tab cols =
     (if find_r cols 1 = length cols then Inr None
      else next_tableau mu mins tab cols (find_r cols 1))"

text \<open>
  The rounds of \<^verbatim>\<open>while True\<close>, each yielding its tableau: the values yielded and the
  exception that ended the loop, or \<open>None\<close> when the loop never ends.
\<close>

partial_function (option) rounds ::
    "nat list list \<Rightarrow> nat list \<Rightarrow> nat list \<Rightarrow> nat list \<Rightarrow> (nat list list list gen) option" where
  "rounds mu mins tab cols =
     (case advance mu mins tab cols of
        Inl e \<Rightarrow> Some ([], Some e)
      | Inr None \<Rightarrow> Some ([], None)
      | Inr (Some (tab', cols')) \<Rightarrow>
          Option.bind (rounds mu mins tab' cols')
            (\<lambda>res. Some (tableau_from_list mu tab' # fst res, snd res)))"

declare rounds.simps [code]

text \<open>
  \<open>__iter__\<close>: the initial tableau is yielded first; then come the first loop and the rounds.
\<close>

definition StandardTableauTuples_shape_iter :: "nat list list \<Rightarrow> (nat list list list gen) option" where
  "StandardTableauTuples_shape_iter mu =
     (case init_cols_mins (shape_size mu) (tableau_from_list mu (initial_tab (shape_size mu))) of
        Inl e \<Rightarrow> Some ([tableau_from_list mu (initial_tab (shape_size mu))], Some e)
      | Inr (cols, mins) \<Rightarrow>
          Option.bind (rounds mu mins (initial_tab (shape_size mu)) cols)
            (\<lambda>res. Some (tableau_from_list mu (initial_tab (shape_size mu)) # fst res, snd res)))"

text \<open>The states \<open>(mins, tab, cols)\<close> that the loop goes through.\<close>

inductive visited :: "nat list list \<Rightarrow> nat list \<Rightarrow> nat list \<Rightarrow> nat list \<Rightarrow> bool" where
  first: "init_cols_mins (shape_size mu) (tableau_from_list mu (initial_tab (shape_size mu))) = Inr (cols, mins)
            \<Longrightarrow> visited mu mins (initial_tab (shape_size mu)) cols"
| round: "visited mu mins tab cols \<Longrightarrow> advance mu mins tab cols = Inr (Some (tab', cols'))
            \<Longrightarrow> visited mu mins tab' cols'"

text \<open>
  Modelled from the spec: a partition is a weakly decreasing sequence of positive integers,
  a partition tuple a tuple of partitions.
\<close>

definition is_partition :: "nat list \<Rightarrow> bool" where
  "is_partition la \<longleftrightarrow> sorted (rev la) \<and> 0 \<notin> set la"

definition is_partition_tuple :: "nat list list \<Rightarrow> bool" where
  "is_partition_tuple mu \<longleftrightarrow> (\<forall>la \<in> set mu. is_partition la)"


subsection \<open>Notions used in the proofs about the shape enumerator\<close>

text \<open>
  The cell \<open>(k, r, c)\<close> sits at the position \<open>clen[k] + cclen[k][r] + c\<close> of the flat list.
  Its column index counts the columns from the last component to the first.
\<close>

definition position :: "nat list list \<Rightarrow> nat \<times> nat \<times> nat \<Rightarrow> nat" where
  "position mu cell = (case cell of (k, r, c) \<Rightarrow> clen mu ! k + cclen mu ! k ! r + c)"

definition width :: "nat list \<Rightarrow> nat" where
  "width la = (if la = [] then 0 else la ! 0)"

definition offset :: "nat list list \<Rightarrow> nat \<Rightarrow> nat" where
  "offset mu k = sum_list (map width (drop (Suc k) mu))"

definition gcol :: "nat list list \<Rightarrow> nat \<times> nat \<times> nat \<Rightarrow> nat" where
  "gcol mu cell = (case cell of (k, r, c) \<Rightarrow> c + offset mu k)"

text \<open>The first cell is weakly above and weakly to the left of the second, in one component.\<close>

definition nw :: "nat \<times> nat \<times> nat \<Rightarrow> nat \<times> nat \<times> nat \<Rightarrow> bool" where
  "nw a b \<longleftrightarrow> (case a of (k, r, c) \<Rightarrow> case b of (k', r', c') \<Rightarrow> k = k' \<and> r \<le> r' \<and> c \<le> c')"

text \<open>
  The invariant of the loop: \<open>tab\<close> holds \<open>1, ..., n\<close> once each, the entries grow along the
  rows and down the columns, \<open>cols\<close> gives the column index of every entry, and \<open>mins\<close> the
  sum of the row and the column of every position.
\<close>

definition cell_sum :: "nat \<times> nat \<times> nat \<Rightarrow> nat" where
  "cell_sum cell = (case cell of (k, r, c) \<Rightarrow> r + c)"

definition valid_state :: "nat list list \<Rightarrow> nat list \<Rightarrow> nat list \<Rightarrow> nat list \<Rightarrow> bool" where
  "valid_state mu mins tab cols \<longleftrightarrow>
     length tab = length (cells mu) \<and> distinct tab \<and> set tab = {1 .. length (cells mu)} \<and>
     length cols = Suc (length (cells mu)) \<and> cols ! 0 = 0 \<and> mins = map cell_sum (cells mu) \<and>
     (\<forall>i < length (cells mu). cols ! (tab ! i) = gcol mu (cells mu ! i)) \<and>
     (\<forall>i < length (cells mu). \<forall>j < length (cells mu).
         i \<noteq> j \<longrightarrow> nw (cells mu ! i) (cells mu ! j) \<longrightarrow> tab ! i < tab ! j)"

text \<open>What the first loop has written for the cells of \<open>D\<close>.\<close>

definition written :: "nat list list \<Rightarrow> (nat \<times> nat \<times> nat) set \<Rightarrow> nat list \<times> nat list \<Rightarrow> bool" where
  "written mu D cm \<longleftrightarrow>
     length (fst cm) = Suc (length (cells mu)) \<and> length (snd cm) = length (cells mu) \<and>
     fst cm ! 0 = 0 \<and>
     (\<forall>cell \<in> D. fst cm ! Suc (position mu cell) = gcol mu cell \<and>
                   snd cm ! position mu cell = cell_sum cell)"

text \<open>
  The positions that receive \<open>1, ..., r - 1\<close>: those that hold an entry up to \<open>r\<close>, apart from
  the position \<open>ps\<close> that receives \<open>r\<close>.  After \<open>m\<close> rounds of the loop that places the entries,
  the first \<open>m\<close> of them are filled.
\<close>

definition free_positions :: "nat list \<Rightarrow> nat \<Rightarrow> nat \<Rightarrow> nat list" where
  "free_positions tab r ps = filter (\<lambda>i. tab ! i \<le> r \<and> i \<noteq> ps) [0 ..< length tab]"

definition placing ::
    "nat list \<Rightarrow> nat list \<Rightarrow> nat \<Rightarrow> nat \<Rightarrow> nat \<Rightarrow> nat list \<times> nat list \<times> int list \<Rightarrow> bool" where
  "placing tab cols r ps m st \<longleftrightarrow>
     (case st of (new_tab, new_cols, changed) \<Rightarrow>
        changed = map int (take m (free_positions tab r ps)) @ replicate (r - 1 - m) (- 1) @ [int ps] \<and>
        length new_tab = length tab \<and> new_tab ! ps = r \<and>
        (\<forall>u < m. new_tab ! (free_positions tab r ps ! u) = Suc u) \<and>
        (\<forall>i < length tab. i \<noteq> ps \<longrightarrow> i \<notin> set (take m (free_positions tab r ps)) \<longrightarrow>
            new_tab ! i = tab ! i) \<and>
        length new_cols = length cols \<and> new_cols ! r = cols ! (tab ! ps) \<and>
        (\<forall>u < m. new_cols ! Suc u = cols ! (tab ! (free_positions tab r ps ! u))) \<and>
        (\<forall>v < length cols. v \<noteq> r \<longrightarrow> (v = 0 \<or> m < v) \<longrightarrow> new_cols ! v = cols ! v))"

text \<open>
  The next state: \<open>r\<close> sits at the position \<open>ps\<close>, the free positions hold \<open>1, ..., r - 1\<close> in
  their order, the larger entries stay; \<open>cols\<close> follows.
\<close>

definition refilled :: "nat list \<Rightarrow> nat list \<Rightarrow> nat \<Rightarrow> nat \<Rightarrow> nat list \<Rightarrow> nat list \<Rightarrow> bool" where
  "refilled tab cols r ps tab' cols' \<longleftrightarrow>
     length tab' = length tab \<and> tab' ! ps = r \<and>
     (\<forall>u < length (free_positions tab r ps). tab' ! (free_positions tab r ps ! u) = Suc u) \<and>
     (\<forall>i < length tab. r < tab ! i \<longrightarrow> tab' ! i = tab ! i) \<and>
     length cols' = length cols \<and> cols' ! r = cols ! (tab ! ps) \<and>
     (\<forall>u < length (free_positions tab r ps).
         cols' ! Suc u = cols ! (tab ! (free_positions tab r ps ! u))) \<and>
     (\<forall>v < length cols. v = 0 \<or> r < v \<longrightarrow> cols' ! v = cols ! v)"

text \<open>
  The measure of the loop: \<open>cols\<close> read as a number in base \<open>B\<close>, the last entry weighing
  most.  Every round increases it.
\<close>

fun weight :: "nat \<Rightarrow> nat list \<Rightarrow> nat" where
  "weight B [] = 0"
| "weight B (x # xs) = x + B * weight B xs"

definition base :: "nat list list \<Rightarrow> nat" where
  "base mu = Suc (sum_list (map width mu))"

section \<open>Properties of the content function\<close>

lemma py_index_None: "py_index row k = None \<longleftrightarrow> k \<notin> set row"
  by (induction row) auto

lemma py_index_Some:
  "py_index row k = Some c \<longleftrightarrow> c < length row \<and> row ! c = k \<and> (\<forall>c' < c. row ! c' \<noteq> k)"
proof (induction row arbitrary: c)
  case Nil
  then show ?case by simp
next
  case (Cons x xs)
  show ?case
  proof (cases "x = k")
    case True
    then show ?thesis by (cases c) auto
  next
    case False
    show ?thesis
    proof (cases c)
      case 0
      with False show ?thesis by auto
    next
      case (Suc d)
      have "(\<forall>c'<Suc d. (x # xs) ! c' \<noteq> k) \<longleftrightarrow> (\<forall>c'<d. xs ! c' \<noteq> k)"
        using False by (auto simp: less_Suc_eq_0_disj)
      with Suc False Cons.IH [of d] show ?thesis by auto
    qed
  qed
qed

lemma content_rows_found:
  assumes "py_getitem mc (int l) = Inr a" "i < length rows" "c < length (rows ! i)" "rows ! i ! c = k"
    "\<forall>i' < i. k \<notin> set (rows ! i')" "\<forall>c' < c. rows ! i ! c' \<noteq> k"
  shows "content_rows mc l r rows k = Some (Inr (a - int (r + i) + int c))"
  using assms
proof (induction rows arbitrary: r i)
  case Nil
  then show ?case by simp
next
  case (Cons row rows)
  show ?case
  proof (cases i)
    case 0
    with Cons.prems have "py_index row k = Some c" by (simp add: py_index_Some)
    with Cons.prems 0 show ?thesis by simp
  next
    case (Suc j)
    with Cons.prems have n: "py_index row k = None" by (auto simp: py_index_None)
    have "content_rows mc l (Suc r) rows k = Some (Inr (a - int (Suc r + j) + int c))"
    proof (rule Cons.IH)
      show "\<forall>i'<j. k \<notin> set (rows ! i')" using Cons.prems(5) Suc by auto
    qed (use Cons.prems Suc in auto)
    with n Cons.prems Suc show ?thesis by simp
  qed
qed

lemma content_rows_absent:
  assumes "\<forall>row \<in> set rows. k \<notin> set row"
  shows "content_rows mc l r rows k = (if rows = [] then None else
           case py_getitem mc (int l) of Inl e \<Rightarrow> Some (Inl e) | Inr a \<Rightarrow> None)"
  using assms
proof (induction rows arbitrary: r)
  case Nil
  then show ?case by simp
next
  case (Cons row rows)
  then have n: "py_index row k = None" by (simp add: py_index_None)
  from Cons show ?case by (cases rows) (auto simp: n split: sum.splits)
qed

lemma py_getitem_nat: "l < length xs \<Longrightarrow> py_getitem xs (int l) = Inr (xs ! l)"
  by (simp add: py_getitem_def)

lemma content_comps_found:
  assumes "j < length t" "l + j < length mc" "r < length (t ! j)" "c < length (t ! j ! r)" "t ! j ! r ! c = k"
    "\<forall>j' < j. \<forall>row \<in> set (t ! j'). k \<notin> set row" "\<forall>r' < r. k \<notin> set (t ! j ! r')"
    "\<forall>c' < c. t ! j ! r ! c' \<noteq> k"
  shows "content_comps mc l t k = Inr (mc ! (l + j) - int r + int c)"
  using assms
proof (induction t arbitrary: l j)
  case Nil
  then show ?case by simp
next
  case (Cons tab rest)
  show ?case
  proof (cases j)
    case 0
    with Cons.prems have g: "py_getitem mc (int l) = Inr (mc ! l)" by (simp add: py_getitem_nat)
    have "content_rows mc l 0 tab k = Some (Inr (mc ! l - int (0 + r) + int c))"
      by (rule content_rows_found [OF g]) (use Cons.prems 0 in auto)
    with 0 show ?thesis by simp
  next
    case (Suc i)
    with Cons.prems have a: "\<forall>row \<in> set tab. k \<notin> set row" by auto
    from Suc Cons.prems have g: "py_getitem mc (int l) = Inr (mc ! l)" by (simp add: py_getitem_nat)
    have n: "content_rows mc l 0 tab k = None"
      by (simp add: content_rows_absent [OF a] g)
    have "content_comps mc (Suc l) rest k = Inr (mc ! (Suc l + i) - int r + int c)"
    proof (rule Cons.IH)
      show "\<forall>j'<i. \<forall>row\<in>set (rest ! j'). k \<notin> set row" using Cons.prems(6) Suc by auto
    qed (use Cons.prems Suc in auto)
    with n Suc show ?thesis by simp
  qed
qed

lemma content_comps_absent:
  assumes "\<forall>tab \<in> set t. \<forall>row \<in> set tab. k \<notin> set row" "l + length t \<le> length mc"
  shows "content_comps mc l t k = Inl ValueError_must_be_contained"
  using assms
proof (induction t arbitrary: l)
  case Nil
  then show ?case by simp
next
  case (Cons tab rest)
  then have a: "\<forall>row \<in> set tab. k \<notin> set row" by simp
  from Cons.prems have g: "py_getitem mc (int l) = Inr (mc ! l)" by (simp add: py_getitem_nat)
  have n: "content_rows mc l 0 tab k = None"
    by (simp add: content_rows_absent [OF a] g)
  from Cons n show ?case by simp
qed

text \<open>
  Claim C7, as the code has it: \<open>content\<close> returns \<open>multicharge[l] - r + c\<close> for the
  first cell \<open>(l, r, c)\<close> in reading order that holds \<open>k\<close> (the only such cell when \<open>k\<close>
  occurs once, as in a standard tableau tuple), provided the multicharge has an entry for
  component \<open>l\<close>; it raises the ValueError "must be contained" when \<open>k\<close> occurs nowhere
  and the multicharge has an entry for every component; and on \<open>([[5]], [[1,2],[3,4]])\<close> the
  content of 3 is -1 for the multicharge (0,0) and 0 for (0,1).
\<close>

theorem content_first_cell:
  "(first_cell_with t l r c k \<and> l < length multicharge \<longrightarrow>
      content t k multicharge = Inr (multicharge ! l - int r + int c)) \<and>
   (absent t k \<and> length t \<le> length multicharge \<longrightarrow>
      content t k multicharge = Inl ValueError_must_be_contained) \<and>
   content [[[5]], [[1, 2], [3, 4]]] 3 [0, 0] = Inr (- 1) \<and>
   content [[[5]], [[1, 2], [3, 4]]] 3 [0, 1] = Inr 0"
proof (intro conjI impI)
  assume a: "first_cell_with t l r c k \<and> l < length multicharge"
  then have "content_comps multicharge 0 t k = Inr (multicharge ! (0 + l) - int r + int c)"
    by (intro content_comps_found) (auto simp: first_cell_with_def value_at_def)
  then show "content t k multicharge = Inr (multicharge ! l - int r + int c)"
    by (simp add: content_def)
next
  assume "absent t k \<and> length t \<le> length multicharge"
  then show "content t k multicharge = Inl ValueError_must_be_contained"
    by (simp add: content_def absent_def content_comps_absent)
next
  show "content [[[5]], [[1, 2], [3, 4]]] 3 [0, 0] = Inr (- 1)"
    by (simp add: content_def py_getitem_def)
  show "content [[[5]], [[1, 2], [3, 4]]] 3 [0, 1] = Inr 0"
    by (simp add: content_def py_getitem_def)
qed

theorem content_first_cell_witness:
  "first_cell_with [[[5]], [[1, 2], [3, 4]]] 1 1 0 3 \<and> (1::nat) < length [0, 2 :: int] \<and>
   content [[[5]], [[1, 2], [3, 4]]] 3 [0, 2] = Inr 1 \<and>
   absent [[[5]], [[1, 2], [3, 4]]] 6 \<and> length [[[5]], [[1, 2], [3, 4 :: int]]] \<le> length [0, 2 :: int] \<and>
   content [[[5]], [[1, 2], [3, 4]]] 6 [0, 2] = Inl ValueError_must_be_contained"
proof -
  have f: "first_cell_with [[[5]], [[1, 2], [3, 4]]] 1 1 0 3"
    by (simp add: first_cell_with_def value_at_def)
  have a: "absent [[[5]], [[1, 2], [3, 4]]] 6"
    by (simp add: absent_def)
  from f a content_first_cell [of "[[[5]], [[1, 2], [3, 4]]]" 1 1 0 3 "[0, 2]"]
    content_first_cell [of "[[[5]], [[1, 2], [3, 4]]]" 1 1 0 6 "[0, 2]"]
  show ?thesis by simp
qed

text \<open>
  Claim C7 as stated fails on a tableau tuple with a repeated entry: the cell \<open>(0, 0, 1)\<close> of
  \<open>([[1,1]], [[2]])\<close> holds 1, and the content of 1 is that of the cell \<open>(0, 0, 0)\<close>.
\<close>

theorem content_repeated_entry_counterexample:
  "value_at [[[1, 1]], [[2]]] 0 0 1 1 \<and>
   content [[[1, 1]], [[2]]] 1 [0, 0] \<noteq> Inr ([0, 0] ! 0 - int 0 + int 1)"
  by (simp add: value_at_def content_def py_getitem_def)

section \<open>Properties of cell addressing\<close>




section \<open>Properties of the constructor\<close>

text \<open>
  Claim C10: the constructor maps both \<open>[]\<close> and \<open>[[]]\<close> to the same empty bare tableau,
  with no entries and level 1, and raises no error.
\<close>

theorem TableauTuple_classcall_empty:
  "TableauTuple_classcall (Raw (PList [])) = Inr (Tableau_obj []) \<and>
   TableauTuple_classcall (Raw (PList [PList []])) = Inr (Tableau_obj []) \<and>
   TableauTuple_classcall (Raw (PList [])) = TableauTuple_classcall (Raw (PList [PList []])) \<and>
   level (Tableau_obj []) = 1 \<and> object_entries (Tableau_obj []) = []"
  by (simp add: TableauTuple_classcall_def)

section \<open>Validation at construction\<close>

lemma mset_one_to_n: "mset (map int [1 ..< n + 1]) = mset_set {1 .. int n}"
proof -
  have "int ` {1 ..< n + 1} = {1 .. int n}"
  proof (intro equalityI subsetI)
    fix x assume "x \<in> {1 .. int n}"
    then have "x = int (nat x)" "nat x \<in> {1 ..< n + 1}" by auto
    then show "x \<in> int ` {1 ..< n + 1}" by blast
  qed auto
  moreover have "mset (map int [1 ..< n + 1]) = image_mset int (mset_set {1 ..< n + 1})"
    by (simp only: mset_map mset_upt)
  moreover have "image_mset int (mset_set {1 ..< n + 1}) = mset_set (int ` {1 ..< n + 1})"
    by (rule image_mset_mset_set) simp
  ultimately show ?thesis by simp
qed

lemma sorted_one_to_n: "sorted (map int [1 ..< n + 1])"
proof -
  have "sorted_wrt (\<le>) [1 ..< n + 1]" by (rule sorted_upt)
  then have "sorted_wrt (\<lambda>x y. int x \<le> int y) [1 ..< n + 1]"
    by (rule sorted_wrt_mono_rel [rotated]) simp
  then show ?thesis by (simp only: sorted_map)
qed

lemma sort_eq_range_iff:
  "sort xs = map int [1 ..< length xs + 1] \<longleftrightarrow> mset xs = mset_set {1 .. int (length xs)}"
proof
  assume "sort xs = map int [1 ..< length xs + 1]"
  then have "mset (sort xs) = mset (map int [1 ..< length xs + 1])" by simp
  then show "mset xs = mset_set {1 .. int (length xs)}"
    by (simp only: mset_sort mset_one_to_n)
next
  assume "mset xs = mset_set {1 .. int (length xs)}"
  then have "mset (map int [1 ..< length xs + 1]) = mset xs" by (simp only: mset_one_to_n)
  then show "sort xs = map int [1 ..< length xs + 1]"
    by (rule properties_for_sort) (rule sorted_one_to_n)
qed

lemma length_transpose_le: "length (transpose s) \<le> length (concat s)"
proof -
  have "foldr (\<lambda>xs. max (length xs)) s 0 \<le> length (concat s)"
    by (induction s) auto
  then show ?thesis by (simp add: length_transpose)
qed

lemma column_beyond: "length (transpose s) \<le> c \<Longrightarrow> filter (\<lambda>row. c < length row) s = []"
proof -
  assume a: "length (transpose s) \<le> c"
  have "\<And>row. row \<in> set s \<Longrightarrow> length row \<le> foldr (\<lambda>xs. max (length xs)) s 0"
    by (induction s) (auto simp: le_max_iff_disj)
  with a show ?thesis by (fastforce simp: length_transpose filter_empty_conv)
qed

lemma column_strict_iff:
  "Tableau_is_column_strict s \<longleftrightarrow>
     (\<forall>c < length (concat s). sorted_wrt (<) (map (\<lambda>row. row ! c) (filter (\<lambda>row. c < length row) s)))"
  (is "?L \<longleftrightarrow> ?R")
proof
  assume l: ?L
  show ?R
  proof (intro allI impI)
    fix c assume "c < length (concat s)"
    show "sorted_wrt (<) (map (\<lambda>row. row ! c) (filter (\<lambda>row. c < length row) s))"
    proof (cases "c < length (transpose s)")
      case True
      then have "transpose s ! c \<in> set (transpose s)" by simp
      with l True show ?thesis
        by (simp add: Tableau_is_column_strict_def nth_transpose)
    next
      case False
      then show ?thesis by (simp add: column_beyond)
    qed
  qed
next
  assume r: ?R
  show ?L
    unfolding Tableau_is_column_strict_def
  proof
    fix col assume "col \<in> set (transpose s)"
    then obtain c where c: "c < length (transpose s)" "col = transpose s ! c"
      by (auto simp: in_set_conv_nth)
    with length_transpose_le [of s] have "c < length (concat s)" by simp
    with r c show "sorted_wrt (<) col" by (simp add: nth_transpose)
  qed
qed

lemma columns_increasing_iff:
  "columns_increasing t \<longleftrightarrow> (\<forall>s \<in> set t. Tableau_is_column_strict s)"
  by (simp add: columns_increasing_def column_strict_iff)

lemma rows_increasing_iff:
  "rows_increasing t \<longleftrightarrow> (\<forall>s \<in> set t. Tableau_is_row_strict s)"
  by (simp add: rows_increasing_def Tableau_is_row_strict_def)

lemma concat_map_concat: "concat (map concat t) = concat (concat t)"
  by (induction t) auto

lemma bijection_check_iff:
  "sort (concat (map Tableau_entries t)) = map int [1 ..< length (concat (map Tableau_entries t)) + 1]
     \<longleftrightarrow> entries_one_to_n t"
proof -
  have "concat (map Tableau_entries t) = entries t"
    by (simp add: entries_def Tableau_entries_def [abs_def] concat_map_concat)
  then show ?thesis by (simp only: sort_eq_range_iff entries_one_to_n_def)
qed

lemma RowStandard_init_cases:
  assumes "tuple_of_tableaux t"
  shows "RowStandardTableauTuple_init t True =
           (if \<not> rows_increasing t then Inl ValueError_not_row_strict
            else if \<not> entries_one_to_n t then Inl ValueError_not_bijection
            else Inr (Tuple t))"
  using assms
  unfolding RowStandardTableauTuple_init_def bijection_check_iff tuple_of_tableaux_def
    rows_increasing_iff
  by simp

lemma Standard_init_cases:
  assumes "tuple_of_tableaux t"
  shows "StandardTableauTuple_init t True =
           (if \<not> rows_increasing t then Inl ValueError_not_row_strict
            else if \<not> entries_one_to_n t then Inl ValueError_not_bijection
            else if \<not> columns_increasing t then Inl ValueError_not_column_strict
            else Inr (Tuple t))"
  by (simp add: StandardTableauTuple_init_def RowStandard_init_cases [OF assms] columns_increasing_iff)

text \<open>
  Claim C5: for a tuple of tableaux, the row standard constructor (with its check on) fails,
  with a ValueError, exactly when some row is not strictly increasing or the entries are not
  \<open>1, ..., n\<close> once each; the standard constructor fails in these cases and when some column is
  not strictly increasing; and each violation has its own error: "row strict" when a row is
  not increasing, "bijection" when the rows are but the entries are not \<open>1, ..., n\<close>, "column
  strict" when only a column is at fault.
\<close>

theorem init_fails_exactly:
  assumes "tuple_of_tableaux t"
  shows
    "((\<exists>e. RowStandardTableauTuple_init t True = Inl e \<and> is_ValueError e)
        \<longleftrightarrow> \<not> rows_increasing t \<or> \<not> entries_one_to_n t) \<and>
     (RowStandardTableauTuple_init t True = Inr (Tuple t)
        \<longleftrightarrow> rows_increasing t \<and> entries_one_to_n t) \<and>
     (RowStandardTableauTuple_init t True = Inl ValueError_not_row_strict
        \<longleftrightarrow> \<not> rows_increasing t) \<and>
     (RowStandardTableauTuple_init t True = Inl ValueError_not_bijection
        \<longleftrightarrow> rows_increasing t \<and> \<not> entries_one_to_n t) \<and>
     ((\<exists>e. StandardTableauTuple_init t True = Inl e \<and> is_ValueError e)
        \<longleftrightarrow> \<not> rows_increasing t \<or> \<not> entries_one_to_n t \<or> \<not> columns_increasing t) \<and>
     (StandardTableauTuple_init t True = Inr (Tuple t)
        \<longleftrightarrow> rows_increasing t \<and> entries_one_to_n t \<and> columns_increasing t) \<and>
     (StandardTableauTuple_init t True = Inl ValueError_not_row_strict \<longleftrightarrow> \<not> rows_increasing t) \<and>
     (StandardTableauTuple_init t True = Inl ValueError_not_bijection
        \<longleftrightarrow> rows_increasing t \<and> \<not> entries_one_to_n t) \<and>
     (StandardTableauTuple_init t True = Inl ValueError_not_column_strict
        \<longleftrightarrow> rows_increasing t \<and> entries_one_to_n t \<and> \<not> columns_increasing t) \<and>
     ValueError_not_row_strict \<noteq> ValueError_not_column_strict \<and>
     ValueError_not_row_strict \<noteq> ValueError_not_bijection \<and>
     ValueError_not_column_strict \<noteq> ValueError_not_bijection"
  by (auto simp: RowStandard_init_cases [OF assms] Standard_init_cases [OF assms])


theorem init_fails_exactly_witness:
  "tuple_of_tableaux [[[1, 4], [2]], [[3]]] \<and>
   rows_increasing [[[1, 4], [2]], [[3]]] \<and> entries_one_to_n [[[1, 4], [2]], [[3]]] \<and>
   columns_increasing [[[1, 4], [2]], [[3]]] \<and>
   StandardTableauTuple_init [[[1, 4], [2]], [[3]]] True = Inr (Tuple [[[1, 4], [2]], [[3]]]) \<and>
   tuple_of_tableaux [[[1, 2, 3]], [[1]]] \<and> \<not> entries_one_to_n [[[1, 2, 3]], [[1]]] \<and>
   RowStandardTableauTuple_init [[[1, 2, 3]], [[1]]] True = Inl ValueError_not_bijection \<and>
   tuple_of_tableaux [[], [[1, 2, 1]]] \<and> \<not> rows_increasing [[], [[1, 2, 1]]] \<and>
   RowStandardTableauTuple_init [[], [[1, 2, 1]]] True = Inl ValueError_not_row_strict \<and>
   tuple_of_tableaux [[[1, 3], [2]], [[5], [4]]] \<and> \<not> columns_increasing [[[1, 3], [2]], [[5], [4]]] \<and>
   StandardTableauTuple_init [[[1, 3], [2]], [[5], [4]]] True = Inl ValueError_not_column_strict"
proof -
  have t1: "tuple_of_tableaux [[[1, 4], [2]], [[3]]]"
    and t2: "tuple_of_tableaux [[[1, 2, 3]], [[1]]]"
    and t3: "tuple_of_tableaux [[], [[1, 2, 1]]]"
    and t4: "tuple_of_tableaux [[[1, 3], [2]], [[5], [4]]]"
    by (simp_all add: tuple_of_tableaux_def partition_shaped_def)
  have e1: "StandardTableauTuple_init [[[1, 4], [2]], [[3]]] True = Inr (Tuple [[[1, 4], [2]], [[3]]])"
    by code_simp
  have e2: "StandardTableauTuple_init [[[1, 2, 3]], [[1]]] True = Inl ValueError_not_bijection"
    by code_simp
  have e3: "StandardTableauTuple_init [[], [[1, 2, 1]]] True = Inl ValueError_not_row_strict"
    by code_simp
  have e4: "StandardTableauTuple_init [[[1, 3], [2]], [[5], [4]]] True = Inl ValueError_not_column_strict"
    by code_simp
  from e1 e2 e3 e4 init_fails_exactly [OF t1] init_fails_exactly [OF t2]
    init_fails_exactly [OF t3] init_fails_exactly [OF t4] t1 t2 t3 t4
  show ?thesis by auto
qed

section \<open>Conjugation is an involution\<close>

















lemma value_empty: "equal_by_value (Bare []) (Tuple [])"
  by (simp add: equal_by_value_def)





section \<open>The operations leave their receiver unchanged\<close>

lemma keeps_refl: "keeps h h"
  by (simp add: keeps_def)

lemma keeps_trans:
  assumes "keeps h h1" "keeps h1 h2"
  shows "keeps h h2"
proof -
  from assms have l: "length h \<le> length h1" "length h1 \<le> length h2"
    and e: "take (length h) h1 = h" "take (length h1) h2 = h1"
    by (simp_all add: keeps_def)
  have "take (length h) h2 = take (length h) (take (length h1) h2)"
    using l by (simp add: min_def)
  also have "\<dots> = h" by (simp only: e)
  finally show ?thesis using l by (simp add: keeps_def)
qed

lemma keeps_alloc: "alloc h x = (a, h') \<Longrightarrow> keeps h h' \<and> a = length h \<and> length h' = Suc (length h)"
  by (auto simp: alloc_def keeps_def)

lemma keeps_update: "keeps h h' \<Longrightarrow> length h \<le> a \<Longrightarrow> keeps h (h'[a := x])"
  by (auto simp: keeps_def)

lemma keeps_nth: "keeps h h' \<Longrightarrow> a < length h \<Longrightarrow> h' ! a = h ! a"
  by (metis keeps_def nth_take)


lemma read_ints_keeps: "keeps h h' \<Longrightarrow> read_ints h a = Some x \<Longrightarrow> read_ints h' a = Some x"
  by (auto simp: read_ints_def keeps_nth keeps_def split: if_splits)

lemma read_refs_keeps: "keeps h h' \<Longrightarrow> read_refs h a = Some x \<Longrightarrow> read_refs h' a = Some x"
  by (auto simp: read_refs_def keeps_nth keeps_def split: if_splits)

lemma read_all_mono:
  assumes "\<And>a x. f a = Some x \<Longrightarrow> g a = Some x"
  shows "read_all f as = Some xs \<Longrightarrow> read_all g as = Some xs"
proof (induction as arbitrary: xs)
  case Nil
  then show ?case by simp
next
  case (Cons a as)
  then show ?case by (auto split: option.splits dest: assms)
qed

lemma read_tableau_keeps:
  assumes "keeps h h'" "read_tableau h a = Some s"
  shows "read_tableau h' a = Some s"
proof -
  from assms(2) obtain rs where rs: "read_refs h a = Some rs" "read_all (read_ints h) rs = Some s"
    by (auto simp: read_tableau_def split: option.splits)
  from rs(2) have "read_all (read_ints h') rs = Some s"
    by (rule read_all_mono [rotated]) (rule read_ints_keeps [OF assms(1)])
  with read_refs_keeps [OF assms(1) rs(1)] show ?thesis by (simp add: read_tableau_def)
qed

lemma read_tuple_keeps:
  assumes "keeps h h'" "read_tuple h a = Some t"
  shows "read_tuple h' a = Some t"
proof -
  from assms(2) obtain cs where cs: "read_refs h a = Some cs" "read_all (read_tableau h) cs = Some t"
    by (auto simp: read_tuple_def split: option.splits)
  from cs(2) have "read_all (read_tableau h') cs = Some t"
    by (rule read_all_mono [rotated]) (rule read_tableau_keeps [OF assms(1)])
  with read_refs_keeps [OF assms(1) cs(1)] show ?thesis by (simp add: read_tuple_def)
qed

lemma new_rows_keeps:
  "new_rows h rows = (as, h') \<Longrightarrow> keeps h h' \<and> (\<forall>a \<in> set as. length h \<le> a \<and> a < length h')"
proof (induction rows arbitrary: h as h')
  case Nil
  then show ?case by (simp add: keeps_refl)
next
  case (Cons row rows)
  obtain a h1 where a: "alloc h (IntSeq row) = (a, h1)" by fastforce
  obtain bs h2 where b: "new_rows h1 rows = (bs, h2)" by fastforce
  from Cons.prems a b have eq: "as = a # bs" "h' = h2" by simp_all
  from keeps_alloc [OF a] have k1: "keeps h h1" "a = length h" "length h1 = Suc (length h)" by simp_all
  from Cons.IH [OF b] have k2: "keeps h1 h2" "\<forall>x \<in> set bs. length h1 \<le> x \<and> x < length h2" by simp_all
  from k2(1) have "length h1 \<le> length h2" by (simp add: keeps_def)
  with k1 k2 eq show ?case by (auto intro: keeps_trans)
qed

lemma new_tableau_fresh:
  assumes "new_tableau h s = (a, h')"
  shows "keeps h h' \<and> fresh_tableau h h' a \<and> a < length h'"
proof -
  obtain rs h1 where r: "new_rows h s = (rs, h1)" by fastforce
  with assms have al: "alloc h1 (RefSeq rs) = (a, h')" by (simp add: new_tableau_def)
  from new_rows_keeps [OF r] have k1: "keeps h h1" "\<forall>x \<in> set rs. length h \<le> x" by auto
  from keeps_alloc [OF al] have k2: "keeps h1 h'" "a = length h1" "length h' = Suc (length h1)" by simp_all
  from al have "read_refs h' a = Some rs" by (auto simp: alloc_def read_refs_def)
  moreover from k1(1) k2(2) have "length h \<le> a" by (simp add: keeps_def)
  ultimately show ?thesis using k1 k2 by (auto simp: fresh_tableau_def intro: keeps_trans)
qed

lemma fresh_tableau_later:
  assumes "fresh_tableau h0 h a" "a < length h" "keeps h h'"
  shows "fresh_tableau h0 h' a"
proof -
  from assms(2,3) have "read_refs h' a = read_refs h a"
    by (simp add: read_refs_def keeps_nth keeps_def)
  with assms(1) show ?thesis by (simp add: fresh_tableau_def)
qed

lemma fresh_tableau_earlier:
  "fresh_tableau h1 h a \<Longrightarrow> length h0 \<le> length h1 \<Longrightarrow> fresh_tableau h0 h a"
  by (fastforce simp: fresh_tableau_def)

lemma new_tableaux_fresh:
  "new_tableaux h t = (as, h') \<Longrightarrow>
     keeps h h' \<and> (\<forall>a \<in> set as. fresh_tableau h h' a \<and> a < length h')"
proof (induction t arbitrary: h as h')
  case Nil
  then show ?case by (simp add: keeps_refl)
next
  case (Cons s ss)
  obtain a h1 where a: "new_tableau h s = (a, h1)" by fastforce
  obtain bs h2 where b: "new_tableaux h1 ss = (bs, h2)" by fastforce
  from Cons.prems a b have eq: "as = a # bs" "h' = h2" by simp_all
  from new_tableau_fresh [OF a] have k1: "keeps h h1" "fresh_tableau h h1 a" "a < length h1" by simp_all
  from Cons.IH [OF b] have k2: "keeps h1 h2" "\<forall>x \<in> set bs. fresh_tableau h1 h2 x \<and> x < length h2"
    by simp_all
  from k1(1) k2(1) have l: "length h \<le> length h1" "length h1 \<le> length h2" by (simp_all add: keeps_def)
  have "fresh_tableau h h2 a" by (rule fresh_tableau_later [OF k1(2,3) k2(1)])
  moreover have "\<forall>x \<in> set bs. fresh_tableau h h2 x"
    using k2(2) l(1) by (blast intro: fresh_tableau_earlier)
  ultimately show ?case using eq k1 k2 l by (auto intro: keeps_trans)
qed

lemma new_tuple_fresh:
  assumes "new_tuple h t = (b, h')"
  shows "keeps h h' \<and> fresh_tuple h h' b \<and> b < length h'"
proof -
  obtain cs h1 where c: "new_tableaux h t = (cs, h1)" by fastforce
  with assms have al: "alloc h1 (RefSeq cs) = (b, h')" by (simp add: new_tuple_def)
  from new_tableaux_fresh [OF c] have k1: "keeps h h1"
    "\<forall>a \<in> set cs. fresh_tableau h h1 a \<and> a < length h1" by simp_all
  from keeps_alloc [OF al] have k2: "keeps h1 h'" "b = length h1" "length h' = Suc (length h1)" by simp_all
  from al have rd: "read_refs h' b = Some cs" by (auto simp: alloc_def read_refs_def)
  from k1(1) k2(2) have lb: "length h \<le> b" by (simp add: keeps_def)
  have "\<forall>a \<in> set cs. fresh_tableau h h' a"
    using k1(2) k2(1) by (blast intro: fresh_tableau_later)
  with rd lb k1 k2 show ?thesis by (auto simp: fresh_tuple_def intro: keeps_trans)
qed

lemma construct_keeps:
  assumes "construct h tab = (res, h')"
  shows "keeps h h' \<and> (\<forall>b. res = Inr b \<longrightarrow> length h \<le> b \<and> b < length h')"
proof (cases "read_tuple h tab")
  case None
  with assms show ?thesis by (auto simp: construct_def keeps_refl)
next
  case (Some t)
  obtain b h1 where n: "new_tuple h t = (b, h1)" by fastforce
  with assms Some have "res = Inr b" "h' = h1" by (simp_all add: construct_def)
  with new_tuple_fresh [OF n] show ?thesis by (simp add: fresh_tuple_def)
qed


lemma py_pos_less: "py_pos n i = Some p \<Longrightarrow> p < n"
  by (auto simp: py_pos_def split: if_splits)

lemma set_item_keeps:
  assumes k: "keeps h0 h1" and f: "fresh_tuple h0 h1 tab" and s: "set_item h1 tab k r c m = Some h2"
  shows "keeps h0 h2"
proof -
  from s obtain cs k' rs r' row c' where
    cs: "read_refs h1 tab = Some cs" and k': "py_pos (length cs) k = Some k'" and
    rs: "read_refs h1 (cs ! k') = Some rs" and r': "py_pos (length rs) r = Some r'" and
    h2: "h2 = h1[rs ! r' := IntSeq (row[c' := m])]"
    by (auto simp: set_item_def split: option.splits)
  from k' r' have "cs ! k' \<in> set cs" "rs ! r' \<in> set rs" by (auto dest: py_pos_less)
  with f cs rs have "length h0 \<le> rs ! r'" by (auto simp: fresh_tuple_def fresh_tableau_def)
  with k h2 show ?thesis by (simp add: keeps_update)
qed

lemma append_entry_keeps:
  assumes k: "keeps h0 h1" and f: "fresh_tuple h0 h1 tab" and s: "append_entry h1 tab k r m = Some h2"
  shows "keeps h0 h2"
proof -
  from s obtain cs rs where
    cs: "read_refs h1 tab = Some cs" and kl: "k < length cs" and
    rs: "read_refs h1 (cs ! k) = Some rs"
    by (auto simp: append_entry_def split: option.splits if_splits)
  from kl have "cs ! k \<in> set cs" by simp
  with f cs rs have fk: "length h0 \<le> cs ! k" and fr: "\<forall>x \<in> set rs. length h0 \<le> x"
    by (auto simp: fresh_tuple_def fresh_tableau_def)
  from k have l: "length h0 \<le> length h1" by (simp add: keeps_def)
  show ?thesis
  proof (cases "r = length rs")
    case True
    let ?h = "(h1 @ [IntSeq []])[cs ! k := RefSeq (rs @ [length h1])]"
    from s cs kl rs True obtain row where h2: "h2 = ?h[length h1 := IntSeq (row @ [m])]"
      by (auto simp: append_entry_def alloc_def split: option.splits if_splits)
    have "keeps h1 (h1 @ [IntSeq []])" by (simp add: keeps_def)
    with k have "keeps h0 (h1 @ [IntSeq []])" by (rule keeps_trans)
    then have "keeps h0 ?h" using fk by (rule keeps_update)
    then show ?thesis unfolding h2 using l by (rule keeps_update)
  next
    case False
    with s cs kl rs obtain row where h2: "h2 = h1[rs ! r := IntSeq (row @ [m])]" and rl: "r < length rs"
      by (auto simp: append_entry_def split: option.splits if_splits)
    from rl fr have "length h0 \<le> rs ! r" by simp
    with k show ?thesis unfolding h2 by (rule keeps_update)
  qed
qed

lemma add_entry_keeps:
  assumes "add_entry h self cell m = (res, h')"
  shows "keeps h h' \<and> (\<forall>b. res = Inr b \<longrightarrow> length h \<le> b \<and> b < length h')"
proof -
  obtain k r c where cell: "cell = (k, r, c)" by (cases cell) auto
  show ?thesis
  proof (cases "to_list h self")
    case None
    with assms cell show ?thesis by (auto simp: add_entry_def keeps_refl)
  next
    case (Some p)
    then obtain tab h1 where p: "to_list h self = Some (tab, h1)" by (cases p) auto
    then obtain t where "new_tuple h t = (tab, h1)"
      by (auto simp: to_list_def split: option.splits)
    from new_tuple_fresh [OF this] have k1: "keeps h h1" and f: "fresh_tuple h h1 tab" by simp_all
    from k1 have l1: "length h \<le> length h1" by (simp add: keeps_def)
    have fin: "keeps h h' \<and> (\<forall>b. res = Inr b \<longrightarrow> length h \<le> b \<and> b < length h')"
      if "keeps h h2" "construct h2 tab = (res, h')" for h2
    proof -
      from that(1) have "length h \<le> length h2" by (simp add: keeps_def)
      with construct_keeps [OF that(2)] that(1) show ?thesis by (auto intro: keeps_trans)
    qed
    show ?thesis
    proof (cases "set_item h1 tab k r c m")
      case (Some h2)
      with assms cell p have "construct h2 tab = (res, h')" by (simp add: add_entry_def)
      with set_item_keeps [OF k1 f Some] show ?thesis by (rule fin)
    next
      case None
      show ?thesis
      proof (cases "read_tuple h1 self")
        case n: None
        with assms cell p None k1 show ?thesis by (auto simp: add_entry_def)
      next
        case (Some t')
        show ?thesis
        proof (cases "0 \<le> k \<and> 0 \<le> r \<and> 0 \<le> c \<and> (nat k, nat r, nat c) \<in> set (addable_cells (shape t'))")
          case False
          with assms cell p None Some k1 show ?thesis by (auto simp: add_entry_def)
        next
          case True
          show ?thesis
          proof (cases "append_entry h1 tab (nat k) (nat r) m")
            case n: None
            with assms cell p None Some True k1 show ?thesis by (auto simp: add_entry_def)
          next
            case s: (Some h2)
            with assms cell p None Some True have "construct h2 tab = (res, h')"
              by (simp add: add_entry_def)
            with append_entry_keeps [OF k1 f s] show ?thesis by (rule fin)
          qed
        qed
      qed
    qed
  qed
qed

lemma restrict_keeps:
  assumes "restrict h self m = (res, h')"
  shows "keeps h h' \<and> (\<forall>b. res = Inr b \<longrightarrow> length h \<le> b \<and> b < length h')"
proof (cases "read_tuple h self")
  case None
  with assms show ?thesis by (auto simp: restrict_def keeps_refl)
next
  case (Some t)
  define m' where "m' = (case m of None \<Rightarrow> int (length (concat (concat t))) - 1 | Some v \<Rightarrow> v)"
  obtain tab h1 where n: "new_tuple h (map (\<lambda>s. Tableau_restrict s m') t) = (tab, h1)" by fastforce
  with assms Some have c: "construct h1 tab = (res, h')" by (simp add: restrict_def m'_def Let_def)
  from new_tuple_fresh [OF n] have k1: "keeps h h1" by simp
  then have "length h \<le> length h1" by (simp add: keeps_def)
  with construct_keeps [OF c] k1 show ?thesis by (auto intro: keeps_trans)
qed

lemma action_keeps:
  assumes "symmetric_group_action_on_entries h self w = (res, h')"
  shows "keeps h h' \<and> (\<forall>b. res = Inr b \<longrightarrow> length h \<le> b \<and> b < length h')"
proof (cases "read_tuple h self")
  case None
  with assms show ?thesis by (auto simp: symmetric_group_action_on_entries_def keeps_refl)
next
  case (Some t)
  define w' where "w' = w @ map (\<lambda>i. int i + 1) [length w ..< length (concat (concat t))]"
  show ?thesis
  proof (cases "act_tableaux w' t")
    case None
    with assms Some show ?thesis
      by (auto simp: symmetric_group_action_on_entries_def w'_def Let_def keeps_refl)
  next
    case d: (Some d)
    obtain tab h1 where n: "new_tuple h d = (tab, h1)" by fastforce
    with assms Some d have c: "construct h1 tab = (res, h')"
      by (simp add: symmetric_group_action_on_entries_def w'_def Let_def)
    from new_tuple_fresh [OF n] have k1: "keeps h h1" by simp
    then have "length h \<le> length h1" by (simp add: keeps_def)
    with construct_keeps [OF c] k1 show ?thesis by (auto intro: keeps_trans)
  qed
qed

text \<open>
  Claim C8: \<open>add_entry\<close>, \<open>restrict\<close> and \<open>symmetric_group_action_on_entries\<close> leave every
  cell of the store as it was, so the receiver has the same components, entries and shape
  after the call, and the object they return is a new one.
\<close>

theorem operations_keep_receiver:
  assumes "read_tuple h self = Some t"
  shows
    "(\<forall>res h'. add_entry h self cell m = (res, h') \<or> restrict h self bound = (res, h') \<or>
         symmetric_group_action_on_entries h self w = (res, h') \<longrightarrow>
       keeps h h' \<and> read_tuple h' self = Some t \<and> shape (the (read_tuple h' self)) = shape t \<and>
       (\<forall>b. res = Inr b \<longrightarrow> b \<noteq> self \<and> length h \<le> b \<and> b < length h'))"
proof (intro allI impI)
  fix res h'
  assume "add_entry h self cell m = (res, h') \<or> restrict h self bound = (res, h') \<or>
    symmetric_group_action_on_entries h self w = (res, h')"
  then have k: "keeps h h' \<and> (\<forall>b. res = Inr b \<longrightarrow> length h \<le> b \<and> b < length h')"
    using add_entry_keeps restrict_keeps action_keeps by blast
  then have r: "read_tuple h' self = Some t" using assms by (blast intro: read_tuple_keeps)
  from assms have "self < length h"
    by (auto simp: read_tuple_def read_refs_def split: option.splits if_splits)
  with k r show "keeps h h' \<and> read_tuple h' self = Some t \<and> shape (the (read_tuple h' self)) = shape t \<and>
       (\<forall>b. res = Inr b \<longrightarrow> b \<noteq> self \<and> length h \<le> b \<and> b < length h')"
    by auto
qed


theorem operations_keep_receiver_witness:
  "read_tuple [IntSeq [1, 2], RefSeq [0], IntSeq [3], RefSeq [2], RefSeq [1, 3]] 4 = Some [[[1, 2]], [[3]]] \<and>
   read_tuple (snd (add_entry [IntSeq [1, 2], RefSeq [0], IntSeq [3], RefSeq [2], RefSeq [1, 3]] 4 (0, 0, 2) 4)) 4
     = Some [[[1, 2]], [[3]]] \<and>
   fst (add_entry [IntSeq [1, 2], RefSeq [0], IntSeq [3], RefSeq [2], RefSeq [1, 3]] 4 (0, 0, 2) 4) = Inr 14 \<and>
   read_tuple (snd (add_entry [IntSeq [1, 2], RefSeq [0], IntSeq [3], RefSeq [2], RefSeq [1, 3]] 4 (0, 0, 2) 4)) 14
     = Some [[[1, 2, 4]], [[3]]] \<and>
   read_tuple (snd (restrict [IntSeq [1, 2], RefSeq [0], IntSeq [3], RefSeq [2], RefSeq [1, 3]] 4 None)) 4
     = Some [[[1, 2]], [[3]]] \<and>
   read_tuple (snd (symmetric_group_action_on_entries
       [IntSeq [1, 2], RefSeq [0], IntSeq [3], RefSeq [2], RefSeq [1, 3]] 4 [2, 1])) 4
     = Some [[[1, 2]], [[3]]]"
proof -
  let ?H = "[IntSeq [1, 2], RefSeq [0], IntSeq [3], RefSeq [2], RefSeq [1, 3]]"
  have h: "read_tuple ?H 4 = Some [[[1, 2]], [[3]]]"
    by code_simp
  have e1: "fst (add_entry ?H 4 (0, 0, 2) 4) = Inr 14"
    by code_simp
  have e2: "read_tuple (snd (add_entry ?H 4 (0, 0, 2) 4)) 14 = Some [[[1, 2, 4]], [[3]]]"
    by code_simp
  note k = operations_keep_receiver [OF h, of "(0, 0, 2)" 4 None "[2, 1]", rule_format]
  have "read_tuple (snd (add_entry ?H 4 (0, 0, 2) 4)) 4 = Some [[[1, 2]], [[3]]]"
    using k [of "fst (add_entry ?H 4 (0, 0, 2) 4)" "snd (add_entry ?H 4 (0, 0, 2) 4)"] by simp
  moreover have "read_tuple (snd (restrict ?H 4 None)) 4 = Some [[[1, 2]], [[3]]]"
    using k [of "fst (restrict ?H 4 None)" "snd (restrict ?H 4 None)"] by simp
  moreover have "read_tuple (snd (symmetric_group_action_on_entries ?H 4 [2, 1])) 4 = Some [[[1, 2]], [[3]]]"
    using k [of "fst (symmetric_group_action_on_entries ?H 4 [2, 1])"
        "snd (symmetric_group_action_on_entries ?H 4 [2, 1])"] by simp
  ultimately show ?thesis using h e1 e2 by simp
qed

section \<open>The residue enumerators yield tableaux of the given residue sequence\<close>

subsection \<open>Cells and the residue sequence of a filling\<close>

lemma in_cells:
  "(k, r, c) \<in> set (cells mu) \<longleftrightarrow> k < length mu \<and> r < length (mu ! k) \<and> c < mu ! k ! r"
  by (fastforce simp: cells_def)

lemma in_cells_shape:
  "(k, r, c) \<in> set (cells (shape t)) \<longleftrightarrow> k < length t \<and> r < length (t ! k) \<and> c < length (t ! k ! r)"
  by (auto simp: in_cells shape_def)

lemma distinct_concat_upt:
  assumes "\<And>k. k < n \<Longrightarrow> distinct (f k)"
    and "\<And>k k'. k < k' \<Longrightarrow> k' < n \<Longrightarrow> set (f k) \<inter> set (f k') = {}"
  shows "distinct (concat (map f [0 ..< n]))"
  using assms
proof (induction n)
  case 0
  then show ?case by simp
next
  case (Suc n)
  have "distinct (concat (map f [0 ..< n]))"
    by (rule Suc.IH) (use Suc.prems in auto)
  moreover have "distinct (f n)" by (rule Suc.prems(1)) simp
  moreover have "set (f k) \<inter> set (f n) = {}" if "k < n" for k
    by (rule Suc.prems(2)) (use that in simp_all)
  then have "set (concat (map f [0 ..< n])) \<inter> set (f n) = {}"
    by fastforce
  ultimately show ?case by simp
qed

lemma distinct_cells: "distinct (cells mu)"
  unfolding cells_def
proof (rule distinct_concat_upt)
  fix k
  show "distinct (concat (map (\<lambda>r. map (\<lambda>c. (k, r, c)) [0 ..< mu ! k ! r]) [0 ..< length (mu ! k)]))"
    by (rule distinct_concat_upt) (auto simp: distinct_map inj_on_def)
next
  fix k k' :: nat
  assume "k < k'"
  then show "set (concat (map (\<lambda>r. map (\<lambda>c. (k, r, c)) [0 ..< mu ! k ! r]) [0 ..< length (mu ! k)]))
      \<inter> set (concat (map (\<lambda>r. map (\<lambda>c. (k', r, c)) [0 ..< mu ! k' ! r]) [0 ..< length (mu ! k')])) = {}"
    by auto
qed







subsection \<open>Adding an entry at the end of a row or as a new row\<close>





lemma row_end_not_cell: "row_end t cell \<Longrightarrow> cell \<notin> set (cells (shape t))"
  by (cases cell) (auto simp: row_end_def in_cells_shape)






subsection \<open>What the loops yield\<close>





subsection \<open>Tableaux of a given shape\<close>










subsection \<open>Positions in a concatenation\<close>


lemma start_0: "start xss 0 = 0"
  by (simp add: start_def)

lemma start_Cons: "start (xs # xss) (Suc c) = length xs + start xss c"
  by (simp add: start_def)


lemma start_end: "start xss (length xss) = length (concat xss)"
  by (simp add: start_def length_concat)


lemma concat_nth_start:
  "c < length xss \<Longrightarrow> j < length (xss ! c) \<Longrightarrow>
     start xss c + j < length (concat xss) \<and> concat xss ! (start xss c + j) = xss ! c ! j"
proof (induction xss arbitrary: c)
  case Nil
  then show ?case by simp
next
  case (Cons xs xss)
  show ?case
  proof (cases c)
    case 0
    with Cons.prems show ?thesis by (simp add: start_0 nth_append)
  next
    case (Suc c')
    with Cons.prems Cons.IH [of c'] show ?thesis by (simp add: start_Cons nth_append)
  qed
qed



lemma prefix_sums_length: "length (prefix_sums a xs) = Suc (length xs)"
  by (induction xs arbitrary: a) auto

lemma prefix_sums_nth: "c \<le> length xs \<Longrightarrow> prefix_sums a xs ! c = a + sum_list (take c xs)"
proof (induction xs arbitrary: a c)
  case Nil
  then show ?case by simp
next
  case (Cons x xs)
  then show ?case by (cases c) (simp_all add: add.assoc)
qed


subsection \<open>From the stretched tableau to the tableau tuple\<close>














section \<open>The shape enumerator never fails and comes to an end\<close>

subsection \<open>Positions of the cells in the flat list\<close>

lemma prefix_sums_not_Nil: "prefix_sums a xs \<noteq> []"
  by (cases xs) simp_all

lemma last_prefix_sums: "last (prefix_sums a xs) = a + sum_list xs"
  by (induction xs arbitrary: a) (simp_all add: prefix_sums_not_Nil add.assoc)

lemma cclen_nth:
  "k < length mu \<Longrightarrow> r \<le> length (mu ! k) \<Longrightarrow> cclen mu ! k ! r = sum_list (take r (mu ! k))"
  by (simp add: cclen_def prefix_sums_nth)

lemma clen_nth: "k \<le> length mu \<Longrightarrow> clen mu ! k = sum_list (take k (map sum_list mu))"
proof -
  assume k: "k \<le> length mu"
  have "map last (cclen mu) = map sum_list mu"
    by (simp add: cclen_def last_prefix_sums)
  with k show ?thesis by (simp add: clen_def prefix_sums_nth)
qed

lemma length_clen: "length (clen mu) = Suc (length mu)"
  by (simp add: clen_def cclen_def prefix_sums_length)

lemma sum_list_take_Suc:
  "r < length (xs :: nat list) \<Longrightarrow> sum_list (take (Suc r) xs) = sum_list (take r xs) + xs ! r"
  by (simp add: take_Suc_conv_app_nth)

lemma sum_list_take_mono: "r \<le> r' \<Longrightarrow> sum_list (take r (xs :: nat list)) \<le> sum_list (take r' xs)"
proof (induction xs arbitrary: r r')
  case Nil
  then show ?case by simp
next
  case (Cons x xs)
  show ?case
  proof (cases r)
    case 0
    then show ?thesis by simp
  next
    case (Suc q)
    with Cons.prems obtain q' where "r' = Suc q'" "q \<le> q'" by (cases r') auto
    with Suc Cons.IH [of q q'] show ?thesis by simp
  qed
qed

lemma sum_list_take_le: "sum_list (take r (xs :: nat list)) \<le> sum_list xs"
  by (cases "r \<le> length xs") (use sum_list_take_mono [of r "length xs" xs] in simp_all)

text \<open>The rows of a component and the components, as the lists that \<open>cells\<close> concatenates.\<close>

lemma cells_rows_lengths:
  "map length (map (\<lambda>r. map (\<lambda>c. (k, r, c)) [0 ..< la ! r]) [0 ..< length la]) = la"
  by (rule nth_equalityI) simp_all

lemma cells_component_length:
  "length (concat (map (\<lambda>r. map (\<lambda>c. (k, r, c)) [0 ..< la ! r]) [0 ..< length la])) = sum_list la"
  using arg_cong [OF cells_rows_lengths [of k la], of sum_list]
  by (simp only: length_concat)

lemma cells_components_lengths:
  "map length (map (\<lambda>k. concat (map (\<lambda>r. map (\<lambda>c. (k, r, c)) [0 ..< mu ! k ! r])
                                      [0 ..< length (mu ! k)])) [0 ..< length mu])
     = map sum_list mu"
  by (rule nth_equalityI) (simp_all add: cells_component_length)

lemma length_cells: "length (cells mu) = shape_size mu"
  using arg_cong [OF cells_components_lengths [of mu], of sum_list]
  by (simp only: cells_def length_concat shape_size_def)

lemma position_bounds:
  assumes "(k, r, c) \<in> set (cells mu)"
  shows "clen mu ! k \<le> position mu (k, r, c)" "position mu (k, r, c) < clen mu ! Suc k"
proof -
  from assms have k: "k < length mu" and r: "r < length (mu ! k)" and c: "c < mu ! k ! r"
    by (simp_all add: in_cells)
  show "clen mu ! k \<le> position mu (k, r, c)" by (simp add: position_def)
  have "sum_list (take r (mu ! k)) + c < sum_list (take (Suc r) (mu ! k))"
    using r c by (simp add: sum_list_take_Suc)
  also have "\<dots> \<le> sum_list (mu ! k)" by (rule sum_list_take_le)
  finally have "cclen mu ! k ! r + c < sum_list (mu ! k)" using k r by (simp add: cclen_nth)
  moreover from k have "clen mu ! Suc k = clen mu ! k + sum_list (mu ! k)"
    by (simp add: clen_nth sum_list_take_Suc)
  ultimately show "position mu (k, r, c) < clen mu ! Suc k" by (simp add: position_def)
qed

lemma cells_nth_position:
  assumes "(k, r, c) \<in> set (cells mu)"
  shows "position mu (k, r, c) < length (cells mu) \<and> cells mu ! position mu (k, r, c) = (k, r, c)"
proof -
  from assms have k: "k < length mu" and r: "r < length (mu ! k)" and c: "c < mu ! k ! r"
    by (simp_all add: in_cells)
  let ?rows = "\<lambda>k. map (\<lambda>r. map (\<lambda>c. (k, r, c)) [0 ..< mu ! k ! r]) [0 ..< length (mu ! k)]"
  let ?blocks = "map (\<lambda>k. concat (?rows k)) [0 ..< length mu]"
  have sr: "start (?rows k) r = cclen mu ! k ! r"
    using k r by (simp add: start_def cells_rows_lengths cclen_nth del: map_map)
  have sb: "start ?blocks k = clen mu ! k"
    using k by (simp add: start_def cells_components_lengths clen_nth del: map_map)
  from r c have 1: "r < length (?rows k)" "c < length (?rows k ! r)" by simp_all
  from concat_nth_start [OF 1]
  have 2: "start (?rows k) r + c < length (concat (?rows k))"
    and 3: "concat (?rows k) ! (start (?rows k) r + c) = (k, r, c)"
    using r c by simp_all
  from k 2 have 4: "k < length ?blocks" "start (?rows k) r + c < length (?blocks ! k)" by simp_all
  from concat_nth_start [OF 4]
  have "start ?blocks k + (start (?rows k) r + c) < length (concat ?blocks)"
    and "concat ?blocks ! (start ?blocks k + (start (?rows k) r + c)) = ?blocks ! k ! (start (?rows k) r + c)"
    by simp_all
  with 3 k show ?thesis
    unfolding sr sb by (simp add: cells_def position_def add.assoc)
qed

lemma position_nth:
  assumes "i < length (cells mu)"
  shows "position mu (cells mu ! i) = i"
proof -
  obtain k r c where cell: "cells mu ! i = (k, r, c)" by (cases "cells mu ! i")
  with assms have "(k, r, c) \<in> set (cells mu)" by (metis nth_mem)
  from cells_nth_position [OF this] cell
  have "position mu (cells mu ! i) < length (cells mu)"
    and "cells mu ! position mu (cells mu ! i) = cells mu ! i" by simp_all
  with assms distinct_cells [of mu] show ?thesis by (simp add: nth_eq_iff_index_eq)
qed

lemma nth_cells_bounds:
  assumes "i < length (cells mu)" "cells mu ! i = (k, r, c)"
  shows "k < length mu" "clen mu ! k \<le> i" "i < clen mu ! Suc k"
proof -
  from assms have m: "(k, r, c) \<in> set (cells mu)" by (metis nth_mem)
  then show "k < length mu" by (simp add: in_cells)
  from position_nth [OF assms(1)] assms(2) have "position mu (k, r, c) = i" by simp
  with position_bounds [OF m] show "clen mu ! k \<le> i" "i < clen mu ! Suc k" by simp_all
qed

lemma clen_mono: "k \<le> k' \<Longrightarrow> k' \<le> length mu \<Longrightarrow> clen mu ! k \<le> clen mu ! k'"
  by (simp add: clen_nth sum_list_take_mono)

lemma clen_last: "clen mu ! length mu = length (cells mu)"
  by (simp add: clen_nth length_cells shape_size_def)

text \<open>A position between the end points of a component belongs to it.\<close>

lemma component_of_position:
  assumes i: "i < length (cells mu)" and cell: "cells mu ! i = (k, r, c)"
    and k': "k' < length mu" and lo: "clen mu ! k' \<le> i" and hi: "i < clen mu ! Suc k'"
  shows "k = k'"
proof (rule ccontr)
  assume ne: "k \<noteq> k'"
  note b = nth_cells_bounds [OF i cell]
  from ne consider "k < k'" | "k' < k" by linarith
  then show False
  proof cases
    case 1
    then have "clen mu ! Suc k \<le> clen mu ! k'" using k' by (intro clen_mono) simp_all
    with b(3) lo show False by simp
  next
    case 2
    then have "clen mu ! Suc k' \<le> clen mu ! k" using b(1) by (intro clen_mono) simp_all
    with b(2) hi show False by simp
  qed
qed

lemma component_nth:
  assumes i: "i < length (cells mu)" and cell: "cells mu ! i = (k, r, c)"
  shows "i < length (component mu) \<and> component mu ! i = Suc k"
proof -
  note b = nth_cells_bounds [OF i cell]
  let ?xss = "map (\<lambda>i. replicate (sum_list (mu ! i)) (i + 1)) [0 ..< length mu]"
  have len: "map length ?xss = map sum_list mu"
    by (rule nth_equalityI) simp_all
  have "start ?xss k = sum_list (take k (map sum_list mu))"
    "start ?xss (Suc k) = sum_list (take (Suc k) (map sum_list mu))"
    unfolding start_def len by (rule refl)+
  with b(1) have st: "start ?xss k = clen mu ! k" "start ?xss (Suc k) = clen mu ! Suc k"
    by (simp_all only: clen_nth Suc_leI less_imp_le)
  from b(1) have ss: "clen mu ! Suc k = clen mu ! k + sum_list (mu ! k)"
    by (simp add: clen_nth sum_list_take_Suc)
  define j where "j = i - clen mu ! k"
  with b ss have j: "i = clen mu ! k + j" "j < sum_list (mu ! k)" by simp_all
  from b(1) j(2) have 1: "k < length ?xss" "j < length (?xss ! k)" by simp_all
  from concat_nth_start [OF 1] j b(1) show ?thesis
    unfolding st by (simp add: component_def)
qed

subsection \<open>The tableau of a flat list\<close>

lemma py_slice_nth: "c < b - a \<Longrightarrow> a + c < length xs \<Longrightarrow> py_slice xs a b ! c = xs ! (a + c)"
  by (simp add: py_slice_def)

lemma length_py_slice: "b \<le> length xs \<Longrightarrow> length (py_slice xs a b) = b - a"
  by (simp add: py_slice_def)

lemma clen_Suc: "k < length mu \<Longrightarrow> clen mu ! Suc k = clen mu ! k + sum_list (mu ! k)"
  by (simp add: clen_nth sum_list_take_Suc)

lemma cclen_Suc:
  "k < length mu \<Longrightarrow> r < length (mu ! k) \<Longrightarrow> cclen mu ! k ! Suc r = cclen mu ! k ! r + mu ! k ! r"
  by (simp add: cclen_nth sum_list_take_Suc)

lemma cclen_le: "k < length mu \<Longrightarrow> r \<le> length (mu ! k) \<Longrightarrow> cclen mu ! k ! r \<le> sum_list (mu ! k)"
  by (simp add: cclen_nth sum_list_take_le)

lemma clen_le: "k \<le> length mu \<Longrightarrow> clen mu ! k \<le> length (cells mu)"
  using clen_mono [of k "length mu" mu] by (simp add: clen_last)

lemma length_tableau_from_list: "length (tableau_from_list mu tab) = length mu"
  by (simp add: tableau_from_list_def)

lemma length_tableau_from_list_nth:
  "k < length mu \<Longrightarrow> length (tableau_from_list mu tab ! k) = length (mu ! k)"
  by (simp add: tableau_from_list_def)

lemma tableau_from_list_row:
  assumes k: "k < length mu" and r: "r < length (mu ! k)"
  shows "tableau_from_list mu tab ! k ! r =
           py_slice (py_slice tab (clen mu ! k) (clen mu ! Suc k)) (cclen mu ! k ! r) (cclen mu ! k ! Suc r)"
  using assms by (simp add: tableau_from_list_def)

lemma length_tableau_from_list_row:
  assumes k: "k < length mu" and r: "r < length (mu ! k)" and n: "length tab = length (cells mu)"
  shows "length (tableau_from_list mu tab ! k ! r) = mu ! k ! r"
proof -
  from k have "clen mu ! Suc k \<le> length tab" using clen_le [of "Suc k" mu] n by simp
  then have 1: "length (py_slice tab (clen mu ! k) (clen mu ! Suc k)) = sum_list (mu ! k)"
    using k by (simp add: length_py_slice clen_Suc)
  from k r have "cclen mu ! k ! Suc r \<le> sum_list (mu ! k)" by (intro cclen_le) simp_all
  with 1 have "length (py_slice (py_slice tab (clen mu ! k) (clen mu ! Suc k))
      (cclen mu ! k ! r) (cclen mu ! k ! Suc r)) = cclen mu ! k ! Suc r - cclen mu ! k ! r"
    by (simp add: length_py_slice)
  with k r show ?thesis by (simp add: tableau_from_list_row cclen_Suc)
qed

lemma tableau_from_list_nth:
  assumes cell: "(k, r, c) \<in> set (cells mu)" and n: "length tab = length (cells mu)"
  shows "tableau_from_list mu tab ! k ! r ! c = tab ! position mu (k, r, c)"
proof -
  from cell have k: "k < length mu" and r: "r < length (mu ! k)" and c: "c < mu ! k ! r"
    by (simp_all add: in_cells)
  let ?a = "clen mu ! k" and ?x = "cclen mu ! k ! r"
  from k have b: "clen mu ! Suc k \<le> length tab" using clen_le [of "Suc k" mu] n by simp
  then have 1: "length (py_slice tab ?a (clen mu ! Suc k)) = sum_list (mu ! k)"
    using k by (simp add: length_py_slice clen_Suc)
  from k r have y: "cclen mu ! k ! Suc r \<le> sum_list (mu ! k)" by (intro cclen_le) simp_all
  from k r have xy: "cclen mu ! k ! Suc r = ?x + mu ! k ! r" by (rule cclen_Suc)
  from c xy y have in1: "?x + c < sum_list (mu ! k)" by simp
  have "py_slice (py_slice tab ?a (clen mu ! Suc k)) ?x (cclen mu ! k ! Suc r) ! c
          = py_slice tab ?a (clen mu ! Suc k) ! (?x + c)"
    using c xy in1 1 by (intro py_slice_nth) simp_all
  also have "\<dots> = tab ! (?a + (?x + c))"
    using in1 b k by (intro py_slice_nth) (simp_all add: clen_Suc)
  finally show ?thesis using k r by (simp add: tableau_from_list_row position_def add.assoc)
qed

subsection \<open>Loops\<close>

lemma and_then_Inr [simp]: "and_then (Inr v) f = f v"
  by (simp add: and_then_def)

lemma and_then_Inl [simp]: "and_then (Inl e) f = Inl e"
  by (simp add: and_then_def)

lemma for_loop_append:
  "for_loop (xs @ ys) body s = and_then (for_loop xs body s) (for_loop ys body)"
proof (induction xs arbitrary: s)
  case Nil
  then show ?case by simp
next
  case (Cons x xs)
  then show ?case by (cases "body x s") simp_all
qed

text \<open>A loop keeps an invariant of the items it has gone through.\<close>

lemma for_loop_invariant:
  assumes start: "P [] s"
    and step: "\<And>pre x post s. xs = pre @ x # post \<Longrightarrow> P pre s \<Longrightarrow>
                 \<exists>s'. body x s = Inr s' \<and> P (pre @ [x]) s'"
  shows "\<exists>s'. for_loop xs body s = Inr s' \<and> P xs s'"
proof -
  have "\<exists>s'. for_loop ys body s = Inr s' \<and> P (pre @ ys) s'"
    if "xs = pre @ ys" "P pre s" for pre ys s
    using that
  proof (induction ys arbitrary: pre s)
    case Nil
    then show ?case by simp
  next
    case (Cons y ys)
    from step [OF Cons.prems] obtain s' where s': "body y s = Inr s'" "P (pre @ [y]) s'" by blast
    from Cons.prems(1) have "xs = (pre @ [y]) @ ys" by simp
    from Cons.IH [OF this s'(2)] s'(1) show ?case by simp
  qed
  from this [of "[]" xs s] start show ?thesis by simp
qed

subsection \<open>The first loop\<close>

lemma position_inj:
  assumes "a \<in> set (cells mu)" "b \<in> set (cells mu)" "position mu a = position mu b"
  shows "a = b"
proof -
  obtain k r c where a: "a = (k, r, c)" by (cases a)
  obtain k' r' c' where b: "b = (k', r', c')" by (cases b)
  from cells_nth_position [of k r c mu] cells_nth_position [of k' r' c' mu] assms
  show ?thesis unfolding a b by metis
qed

lemma length_from_one: "length (initial_tab n) = n"
  by (simp add: initial_tab_def del: upt_Suc)

lemma upt_from_one_nth: "p < n \<Longrightarrow> initial_tab n ! p = Suc p"
  using nth_upt [of 1 p "n + 1"] by (simp add: initial_tab_def del: upt_Suc)

lemma position_less: "a \<in> set (cells mu) \<Longrightarrow> position mu a < length (cells mu)"
  using cells_nth_position [of "fst a" "fst (snd a)" "snd (snd a)" mu] by simp

lemma written_mono: "written mu D cm \<Longrightarrow> E \<subseteq> D \<Longrightarrow> written mu E cm"
  by (auto simp: written_def)

lemma init_cell_written:
  assumes cell: "(k, row, col) \<in> set (cells mu)" and D: "D \<subseteq> set (cells mu)"
    and w: "written mu D cm"
  shows "\<exists>cm'. init_cell (tableau_from_list mu (initial_tab (length (cells mu))) ! k) (offset mu k) row col cm
                  = Inr cm' \<and> written mu (insert (k, row, col) D) cm'"
proof -
  obtain cols mins where cm: "cm = (cols, mins)" by (cases cm)
  let ?n = "length (cells mu)"
  let ?p = "position mu (k, row, col)"
  from w cm have lc: "length cols = Suc ?n" and lm: "length mins = ?n" and c0: "cols ! 0 = 0"
    and old: "\<And>b. b \<in> D \<Longrightarrow> cols ! Suc (position mu b) = gcol mu b \<and> mins ! position mu b = cell_sum b"
    by (simp_all add: written_def)
  from position_less [OF cell] have p: "?p < ?n" .
  have "tableau_from_list mu (initial_tab ?n) ! k ! row ! col = (initial_tab ?n) ! ?p"
    by (rule tableau_from_list_nth [OF cell]) (rule length_from_one)
  also from p have "\<dots> = Suc ?p" by (rule upt_from_one_nth)
  finally have v: "tableau_from_list mu (initial_tab ?n) ! k ! row ! col = Suc ?p" .
  from p lm have pp: "py_pos (length mins) (int ?p) = Some ?p"
    by (simp add: py_pos_def)
  from p lc have s: "set_at cols (Suc ?p) (col + offset mu k) = Inr (cols[Suc ?p := col + offset mu k])"
    by (simp add: set_at_def)
  let ?cm' = "(cols[Suc ?p := col + offset mu k], mins[?p := row + col])"
  have run: "init_cell (tableau_from_list mu (initial_tab ?n) ! k) (offset mu k) row col cm = Inr ?cm'"
    unfolding init_cell_def cm v by (simp add: s pp)
  have "written mu (insert (k, row, col) D) ?cm'"
    unfolding written_def
  proof (intro conjI ballI)
    show "length (fst ?cm') = Suc ?n" using lc by simp
    show "length (snd ?cm') = ?n" using lm by simp
    show "fst ?cm' ! 0 = 0" using c0 by simp
  next
    fix b assume b: "b \<in> insert (k, row, col) D"
    show "fst ?cm' ! Suc (position mu b) = gcol mu b"
    proof (cases "b = (k, row, col)")
      case True
      with p lc show ?thesis by (simp add: gcol_def)
    next
      case False
      with b have bD: "b \<in> D" by simp
      with D have "b \<in> set (cells mu)" by blast
      with False cell have "position mu b \<noteq> ?p" using position_inj by blast
      with old [OF bD] show ?thesis by simp
    qed
    show "snd ?cm' ! position mu b = cell_sum b"
    proof (cases "b = (k, row, col)")
      case True
      with p lm show ?thesis by (simp add: cell_sum_def)
    next
      case False
      with b have bD: "b \<in> D" by simp
      with D have "b \<in> set (cells mu)" by blast
      with False cell have "position mu b \<noteq> ?p" using position_inj by blast
      with old [OF bD] show ?thesis by simp
    qed
  qed
  with run show ?thesis by blast
qed

lemma init_row_written:
  assumes k: "k < length mu" and row: "row < length (mu ! k)" and D: "D \<subseteq> set (cells mu)"
    and w: "written mu D cm"
  shows "\<exists>cm'. for_loop [0 ..< mu ! k ! row]
                  (init_cell (tableau_from_list mu (initial_tab (length (cells mu))) ! k) (offset mu k) row) cm
                  = Inr cm' \<and> written mu (D \<union> {(k, row, c) | c. c < mu ! k ! row}) cm'"
proof -
  let ?P = "\<lambda>pre cm. written mu (D \<union> {(k, row, c) | c. c \<in> set pre}) cm"
  have "\<exists>cm'. for_loop [0 ..< mu ! k ! row]
                  (init_cell (tableau_from_list mu (initial_tab (length (cells mu))) ! k) (offset mu k) row) cm
                  = Inr cm' \<and> ?P [0 ..< mu ! k ! row] cm'"
  proof (rule for_loop_invariant)
    show "?P [] cm" using w by simp
  next
    fix pre x post s
    assume xs: "[0 ..< mu ! k ! row] = pre @ x # post" and P: "?P pre s"
    from arg_cong [OF xs, of set]
    have x: "x < mu ! k ! row" and pre: "\<forall>c \<in> set pre. c < mu ! k ! row" by auto
    from x k row have cell: "(k, row, x) \<in> set (cells mu)" by (simp add: in_cells)
    from pre k row D have sub: "D \<union> {(k, row, c) | c. c \<in> set pre} \<subseteq> set (cells mu)"
      by (auto simp: in_cells)
    have eq: "insert (k, row, x) (D \<union> {(k, row, c) | c. c \<in> set pre})
                = D \<union> {(k, row, c) | c. c \<in> set (pre @ [x])}" by auto
    from init_cell_written [OF cell sub P] show
      "\<exists>s'. init_cell (tableau_from_list mu (initial_tab (length (cells mu))) ! k) (offset mu k) row x s = Inr s'
            \<and> ?P (pre @ [x]) s'"
      unfolding eq .
  qed
  then show ?thesis by simp
qed

lemma init_component_written:
  assumes k: "k < length mu" and D: "D \<subseteq> set (cells mu)" and w: "written mu D cm"
  shows "\<exists>cm'. init_component (tableau_from_list mu (initial_tab (length (cells mu))) ! k) (offset mu k) cm
                  = Inr cm' \<and> written mu (D \<union> {(k, r, c) | r c. (k, r, c) \<in> set (cells mu)}) cm'"
proof -
  let ?t = "tableau_from_list mu (initial_tab (length (cells mu))) ! k"
  let ?P = "\<lambda>pre cm. written mu (D \<union> {(k, r, c) | r c. r \<in> set pre \<and> c < mu ! k ! r}) cm"
  have "\<exists>cm'. for_loop [0 ..< length (mu ! k)]
                  (\<lambda>row. for_loop [0 ..< length (?t ! row)] (init_cell ?t (offset mu k) row)) cm
                  = Inr cm' \<and> ?P [0 ..< length (mu ! k)] cm'"
  proof (rule for_loop_invariant)
    show "?P [] cm" using w by simp
  next
    fix pre x post s
    assume xs: "[0 ..< length (mu ! k)] = pre @ x # post" and P: "?P pre s"
    from arg_cong [OF xs, of set]
    have x: "x < length (mu ! k)" and pre: "\<forall>r \<in> set pre. r < length (mu ! k)" by auto
    from pre k D have sub: "D \<union> {(k, r, c) | r c. r \<in> set pre \<and> c < mu ! k ! r} \<subseteq> set (cells mu)"
      by (auto simp: in_cells)
    have len: "length (?t ! x) = mu ! k ! x"
      by (rule length_tableau_from_list_row [OF k x]) (rule length_from_one)
    have eq: "D \<union> {(k, r, c) | r c. r \<in> set pre \<and> c < mu ! k ! r} \<union> {(k, x, c) | c. c < mu ! k ! x}
                = D \<union> {(k, r, c) | r c. r \<in> set (pre @ [x]) \<and> c < mu ! k ! r}" by auto
    from init_row_written [OF k x sub P] show
      "\<exists>s'. for_loop [0 ..< length (?t ! x)] (init_cell ?t (offset mu k) x) s = Inr s' \<and> ?P (pre @ [x]) s'"
      unfolding eq len .
  qed
  moreover have "{(k, r, c) | r c. r \<in> set [0 ..< length (mu ! k)] \<and> c < mu ! k ! r}
      = {(k, r, c) | r c. (k, r, c) \<in> set (cells mu)}"
    using k by (auto simp: in_cells)
  ultimately show ?thesis
    using k by (simp add: init_component_def length_tableau_from_list_nth)
qed

lemma offset_step: "k < length mu \<Longrightarrow> sum_list (map width (drop k mu)) = width (mu ! k) + offset mu k"
  by (simp add: offset_def Cons_nth_drop_Suc [symmetric])

lemma init_components_written:
  assumes m: "m \<le> length mu"
    and w: "written mu {(k, r, c) | k r c. (k, r, c) \<in> set (cells mu) \<and> m \<le> k} cm"
  shows "\<exists>cm'. init_components (rev (take m (tableau_from_list mu (initial_tab (length (cells mu))))))
                   (sum_list (map width (drop m mu))) cm = Inr cm'
               \<and> written mu (set (cells mu)) cm'"
  using assms
proof (induction m arbitrary: cm)
  case 0
  have "{(k, r, c) | k r c. (k, r, c) \<in> set (cells mu) \<and> 0 \<le> k} = set (cells mu)" by auto
  with "0.prems" show ?case by simp
next
  case (Suc m)
  let ?T = "tableau_from_list mu (initial_tab (length (cells mu)))"
  let ?D = "{(k, r, c) | k r c. (k, r, c) \<in> set (cells mu) \<and> Suc m \<le> k}"
  from Suc.prems have m: "m < length mu" by simp
  then have tk: "take (Suc m) ?T = take m ?T @ [?T ! m]"
    by (simp add: take_Suc_conv_app_nth length_tableau_from_list)
  have off: "sum_list (map width (drop (Suc m) mu)) = offset mu m" by (simp add: offset_def)
  have "?D \<subseteq> set (cells mu)" by auto
  from init_component_written [OF m this Suc.prems(2)] obtain cm' where
    run: "init_component (?T ! m) (offset mu m) cm = Inr cm'"
    and w': "written mu (?D \<union> {(m, r, c) | r c. (m, r, c) \<in> set (cells mu)}) cm'" by blast
  have "?D \<union> {(m, r, c) | r c. (m, r, c) \<in> set (cells mu)}
          = {(k, r, c) | k r c. (k, r, c) \<in> set (cells mu) \<and> m \<le> k}"
    by (auto simp: Suc_le_eq le_less)
  with w' have w'': "written mu {(k, r, c) | k r c. (k, r, c) \<in> set (cells mu) \<and> m \<le> k} cm'" by simp
  have next_offset: "(if ?T ! m \<noteq> [] then offset mu m + length (?T ! m ! 0) else offset mu m)
                  = sum_list (map width (drop m mu))"
  proof (cases "mu ! m = []")
    case True
    with m have "?T ! m = []" using length_tableau_from_list_nth [OF m, of "(initial_tab (length (cells mu)))"]
      by simp
    with True m show ?thesis by (simp add: offset_step width_def)
  next
    case False
    with m have ne: "?T ! m \<noteq> []"
      using length_tableau_from_list_nth [OF m, of "(initial_tab (length (cells mu)))"] by auto
    from False have "0 < length (mu ! m)" by simp
    from length_tableau_from_list_row [OF m this length_from_one]
    have "length (?T ! m ! 0) = mu ! m ! 0" .
    with ne False m show ?thesis by (simp add: offset_step width_def)
  qed
  from Suc.IH [OF _ w''] m obtain cm'' where
    "init_components (rev (take m ?T)) (sum_list (map width (drop m mu))) cm' = Inr cm''"
    "written mu (set (cells mu)) cm''" by auto
  with run show ?case
    unfolding tk off by (simp add: next_offset)
qed

lemma init_cols_mins_written:
  "\<exists>cols mins. init_cols_mins (shape_size mu) (tableau_from_list mu (initial_tab (shape_size mu)))
                  = Inr (cols, mins) \<and> written mu (set (cells mu)) (cols, mins)"
proof -
  let ?n = "length (cells mu)"
  have "written mu {(k, r, c) | k r c. (k, r, c) \<in> set (cells mu) \<and> length mu \<le> k}
          (replicate (?n + 1) 0, replicate ?n 0)"
    by (auto simp: written_def in_cells)
  from init_components_written [OF le_refl this] obtain cm' where
    "init_components (rev (tableau_from_list mu (initial_tab ?n))) 0 (replicate (?n + 1) 0, replicate ?n 0)
       = Inr cm'" and "written mu (set (cells mu)) cm'"
    by (auto simp: length_tableau_from_list)
  then show ?thesis
    by (cases cm') (simp add: init_cols_mins_def length_cells)
qed

subsection \<open>The order of the positions and the first state\<close>

lemma nw_position_less:
  assumes a: "a \<in> set (cells mu)" and b: "b \<in> set (cells mu)" and nw: "nw a b" and ne: "a \<noteq> b"
  shows "position mu a < position mu b"
proof -
  obtain k r c where A: "a = (k, r, c)" by (cases a)
  obtain k' r' c' where B: "b = (k', r', c')" by (cases b)
  from nw A B have kk: "k' = k" and rr: "r \<le> r'" and cc: "c \<le> c'" by (simp_all add: nw_def)
  from a A have k: "k < length mu" and r: "r < length (mu ! k)" and c: "c < mu ! k ! r"
    by (simp_all add: in_cells)
  from b B kk have r': "r' < length (mu ! k)" by (simp add: in_cells)
  show ?thesis
  proof (cases "r = r'")
    case True
    with ne A B kk cc have "c < c'" by simp
    with True kk show ?thesis by (simp add: A B position_def)
  next
    case False
    with rr have "Suc r \<le> r'" by simp
    then have "sum_list (take (Suc r) (mu ! k)) \<le> sum_list (take r' (mu ! k))"
      by (rule sum_list_take_mono)
    with k r r' have "cclen mu ! k ! r + mu ! k ! r \<le> cclen mu ! k ! r'"
      by (simp add: cclen_nth sum_list_take_Suc)
    with c kk show ?thesis by (simp add: A B position_def)
  qed
qed

lemma nw_index_less:
  assumes "i < length (cells mu)" "j < length (cells mu)" "i \<noteq> j" "nw (cells mu ! i) (cells mu ! j)"
  shows "i < j"
proof -
  from assms(1-3) distinct_cells [of mu] have "cells mu ! i \<noteq> cells mu ! j"
    by (simp add: nth_eq_iff_index_eq)
  from nw_position_less [OF nth_mem [OF assms(1)] nth_mem [OF assms(2)] assms(4) this] assms(1,2)
  show ?thesis by (simp add: position_nth)
qed

lemma distinct_initial_tab: "distinct (initial_tab n)"
  by (simp add: initial_tab_def del: upt_Suc)

lemma set_initial_tab: "set (initial_tab n) = {1 .. n}"
  by (auto simp: initial_tab_def simp del: upt_Suc)

lemma initial_valid:
  assumes "written mu (set (cells mu)) (cols, mins)"
  shows "valid_state mu mins (initial_tab (length (cells mu))) cols"
proof -
  let ?n = "length (cells mu)"
  from assms have lc: "length cols = Suc ?n" and lm: "length mins = ?n" and c0: "cols ! 0 = 0"
    and w: "\<And>b. b \<in> set (cells mu) \<Longrightarrow>
              cols ! Suc (position mu b) = gcol mu b \<and> mins ! position mu b = cell_sum b"
    by (simp_all add: written_def)
  have at: "cols ! Suc i = gcol mu (cells mu ! i) \<and> mins ! i = cell_sum (cells mu ! i)" if "i < ?n" for i
    using w [of "cells mu ! i"] that by (simp add: position_nth)
  have mins: "mins = map cell_sum (cells mu)"
    by (rule nth_equalityI) (simp_all add: lm at)
  have cols: "\<forall>i < ?n. cols ! (initial_tab ?n ! i) = gcol mu (cells mu ! i)"
    by (simp add: upt_from_one_nth at)
  have order: "\<forall>i < ?n. \<forall>j < ?n. i \<noteq> j \<longrightarrow> nw (cells mu ! i) (cells mu ! j) \<longrightarrow>
      initial_tab ?n ! i < initial_tab ?n ! j"
    using nw_index_less [of _ mu] by (simp add: upt_from_one_nth)
  show ?thesis
    unfolding valid_state_def
    using lc c0 mins cols order
    by (simp add: length_from_one distinct_initial_tab set_initial_tab)
qed

subsection \<open>The search for the first descent\<close>

lemma find_r_ge: "r0 \<le> find_r cols r0"
proof (induction cols r0 rule: find_r.induct)
  case (1 cols r)
  show ?case
  proof (cases "r < length cols \<and> cols ! (r - 1) \<le> cols ! r")
    case True
    with 1 have "r + 1 \<le> find_r cols (r + 1)" by simp
    moreover from True have "find_r cols r = find_r cols (r + 1)" by (subst find_r.simps) simp
    ultimately show ?thesis by simp
  next
    case False
    then have "find_r cols r = r" by (subst find_r.simps) auto
    then show ?thesis by simp
  qed
qed

lemma find_r_le: "r0 \<le> length cols \<Longrightarrow> find_r cols r0 \<le> length cols"
proof (induction cols r0 rule: find_r.induct)
  case (1 cols r)
  show ?case
  proof (cases "r < length cols \<and> cols ! (r - 1) \<le> cols ! r")
    case True
    with 1 have "find_r cols (r + 1) \<le> length cols" by simp
    moreover from True have "find_r cols r = find_r cols (r + 1)" by (subst find_r.simps) simp
    ultimately show ?thesis by simp
  next
    case False
    then have "find_r cols r = r" by (subst find_r.simps) auto
    with "1.prems" show ?thesis by simp
  qed
qed

lemma find_r_descent:
  "find_r cols r0 < length cols \<Longrightarrow> cols ! find_r cols r0 < cols ! (find_r cols r0 - 1)"
proof (induction cols r0 rule: find_r.induct)
  case (1 cols r)
  show ?case
  proof (cases "r < length cols \<and> cols ! (r - 1) \<le> cols ! r")
    case True
    then have eq: "find_r cols r = find_r cols (r + 1)" by (subst find_r.simps) simp
    with 1 True show ?thesis by simp
  next
    case False
    then have eq: "find_r cols r = r" by (subst find_r.simps) auto
    with "1.prems" False show ?thesis by auto
  qed
qed

lemma find_r_before:
  "r0 \<le> v \<Longrightarrow> v < find_r cols r0 \<Longrightarrow> cols ! (v - 1) \<le> cols ! v"
proof (induction cols r0 rule: find_r.induct)
  case (1 cols r)
  show ?case
  proof (cases "r < length cols \<and> cols ! (r - 1) \<le> cols ! r")
    case True
    then have eq: "find_r cols r = find_r cols (r + 1)" by (subst find_r.simps) simp
    show ?thesis
    proof (cases "v = r")
      case True
      with \<open>r < length cols \<and> cols ! (r - 1) \<le> cols ! r\<close> show ?thesis by simp
    next
      case False
      with "1.prems" have "r + 1 \<le> v" by simp
      moreover from "1.prems" eq have "v < find_r cols (r + 1)" by simp
      ultimately show ?thesis using 1 True by simp
    qed
  next
    case False
    then have eq: "find_r cols r = r" by (subst find_r.simps) auto
    with "1.prems" show ?thesis by simp
  qed
qed

subsection \<open>\<open>list.index\<close> and the last item of a slice that passes a test\<close>

lemma index_in_found:
  "v \<in> set xs \<Longrightarrow> \<exists>p. index_in xs v = Inr p \<and> p < length xs \<and> xs ! p = v"
proof (induction xs)
  case Nil
  then show ?case by simp
next
  case (Cons x xs)
  show ?case
  proof (cases "x = v")
    case True
    then show ?thesis by simp
  next
    case False
    with Cons.prems have "v \<in> set xs" by simp
    from Cons.IH [OF this] obtain p where "index_in xs v = Inr p" "p < length xs" "xs ! p = v"
      by blast
    with False show ?thesis by simp
  qed
qed

lemma py_slice_map: "b \<le> length xs \<Longrightarrow> py_slice xs a b = map ((!) xs) [a ..< b]"
  by (rule nth_equalityI) (auto simp: py_slice_def)

lemma last_filter_upt:
  assumes "filter Q [a ..< b] \<noteq> []"
  shows "\<exists>p. a \<le> p \<and> p < b \<and> Q p \<and> (\<forall>q. p < q \<and> q < b \<longrightarrow> \<not> Q q) \<and> last (filter Q [a ..< b]) = p"
  using assms
proof (induction b)
  case 0
  then show ?case by simp
next
  case (Suc b)
  show ?case
  proof (cases "a \<le> b")
    case False
    with Suc.prems show ?thesis by simp
  next
    case ab: True
    show ?thesis
    proof (cases "Q b")
      case True
      with ab have "last (filter Q [a ..< Suc b]) = b" by simp
      with True ab show ?thesis by (intro exI [of _ b]) (auto simp: less_Suc_eq)
    next
      case False
      with ab Suc.prems have ne: "filter Q [a ..< b] \<noteq> []" by simp
      from Suc.IH [OF ne] obtain p where p: "a \<le> p" "p < b" "Q p"
        "\<forall>q. p < q \<and> q < b \<longrightarrow> \<not> Q q" "last (filter Q [a ..< b]) = p" by blast
      from False ab p(5) have "last (filter Q [a ..< Suc b]) = p" by simp
      with p False show ?thesis by (intro exI [of _ p]) (auto simp: less_Suc_eq)
    qed
  qed
qed

lemma last_filter_slice:
  assumes b: "b \<le> length xs" and ne: "filter P (py_slice xs a b) \<noteq> []"
  shows "\<exists>p. a \<le> p \<and> p < b \<and> P (xs ! p) \<and> (\<forall>q. p < q \<and> q < b \<longrightarrow> \<not> P (xs ! q))
            \<and> last (filter P (py_slice xs a b)) = xs ! p"
proof -
  have eq: "filter P (py_slice xs a b) = map ((!) xs) (filter (\<lambda>i. P (xs ! i)) [a ..< b])"
    by (simp add: py_slice_map [OF b] filter_map comp_def)
  with ne have ne': "filter (\<lambda>i. P (xs ! i)) [a ..< b] \<noteq> []" by simp
  from last_filter_upt [OF ne'] obtain p where p: "a \<le> p" "p < b" "P (xs ! p)"
    "\<forall>q. p < q \<and> q < b \<longrightarrow> \<not> P (xs ! q)" "last (filter (\<lambda>i. P (xs ! i)) [a ..< b]) = p" by blast
  from ne' p(5) have "last (filter P (py_slice xs a b)) = xs ! p"
    unfolding eq by (simp add: last_map)
  with p show ?thesis by blast
qed

lemma filter_slice_empty:
  assumes b: "b \<le> length xs"
  shows "filter P (py_slice xs a b) = [] \<longleftrightarrow> (\<forall>i. a \<le> i \<and> i < b \<longrightarrow> \<not> P (xs ! i))"
  by (auto simp: py_slice_map [OF b] filter_empty_conv)

subsection \<open>The loop that places the entries below \<open>r\<close>\<close>

lemma get_at_Inr: "i < length xs \<Longrightarrow> get_at xs i = Inr (xs ! i)"
  by (simp add: get_at_def)

lemma set_at_Inr: "i < length xs \<Longrightarrow> set_at xs i v = Inr (xs[i := v])"
  by (simp add: set_at_def)

lemma find_i_finds:
  assumes "i0 \<le> p" "p < length mins" "p < length tab"
    and "\<forall>i. i0 \<le> i \<and> i < p \<longrightarrow> t \<le> mins ! i \<or> r < tab ! i \<or> int i \<in> set changed"
    and "\<not> t \<le> mins ! p" "\<not> r < tab ! p" "int p \<notin> set changed"
  shows "find_i mins tab changed r t i0 = Inr p"
  using assms(1,4)
proof (induction "p - i0" arbitrary: i0)
  case 0
  then have "i0 = p" by simp
  with assms(2,3,5,6,7) show ?case by (subst find_i.simps) simp
next
  case (Suc d)
  then have lt: "i0 < p" by simp
  with Suc.prems(2) have skip: "t \<le> mins ! i0 \<or> r < tab ! i0 \<or> int i0 \<in> set changed" by simp
  from Suc.hyps(2) lt have d: "d = p - (i0 + 1)" by simp
  from lt have le: "i0 + 1 \<le> p" by simp
  have rest: "\<forall>i. i0 + 1 \<le> i \<and> i < p \<longrightarrow> t \<le> mins ! i \<or> r < tab ! i \<or> int i \<in> set changed"
    using Suc.prems(2) by simp
  from Suc.hyps(1) [OF d le rest] have "find_i mins tab changed r t (i0 + 1) = Inr p" .
  with skip lt assms(2,3) show ?case by (subst find_i.simps) auto
qed

lemma set_free_positions:
  "set (free_positions tab r ps) = {i. i < length tab \<and> tab ! i \<le> r \<and> i \<noteq> ps}"
  by (auto simp: free_positions_def)

lemma distinct_free_positions: "distinct (free_positions tab r ps)"
  by (simp add: free_positions_def)

lemma sorted_free_positions: "sorted (free_positions tab r ps)"
  unfolding free_positions_def by (rule sorted_wrt_filter) simp

lemma nth_not_in_take: "distinct xs \<Longrightarrow> m < length xs \<Longrightarrow> xs ! m \<notin> set (take m xs)"
proof
  assume d: "distinct xs" and m: "m < length xs" and "xs ! m \<in> set (take m xs)"
  then obtain u where u: "u < length (take m xs)" "take m xs ! u = xs ! m"
    by (auto simp: in_set_conv_nth)
  with m have "u < m" "xs ! u = xs ! m" by simp_all
  with d m show False by (simp add: nth_eq_iff_index_eq)
qed

lemma sorted_before_in_take:
  assumes "sorted xs" "m < length xs" "i \<in> set xs" "i < xs ! m"
  shows "i \<in> set (take m xs)"
proof -
  from assms(3) obtain u where u: "u < length xs" "xs ! u = i" by (auto simp: in_set_conv_nth)
  have "u < m"
  proof (rule ccontr)
    assume "\<not> u < m"
    then have "m \<le> u" by simp
    from sorted_nth_mono [OF assms(1) this u(1)] u(2) assms(4) show False by simp
  qed
  with u assms(2) have "u < length (take m xs)" "take m xs ! u = i" by simp_all
  then show ?thesis by (metis nth_mem)
qed

lemma replicate_update_last: "(replicate (Suc n) x)[n := y] = replicate n x @ [y]"
  by (induction n) simp_all

lemma changed_first: "0 < r \<Longrightarrow> (replicate r (x :: int))[r - 1 := y] = replicate (r - 1) x @ [y]"
  using replicate_update_last [of "r - 1" x y] by simp

lemma changed_update:
  assumes m: "m < length qs" and r: "Suc m < r"
  shows "(map int (take m qs) @ replicate (r - 1 - m) (- 1) @ [int ps])[m := int (qs ! m)]
           = map int (take (Suc m) qs) @ replicate (r - 1 - Suc m) (- 1) @ [int ps]"
proof -
  from r obtain d where d: "r - 1 - m = Suc d" "r - 1 - Suc m = d"
    by (cases "r - 1 - m") simp_all
  from m have l: "length (map int (take m qs)) = m" by simp
  show ?thesis
    unfolding d using m by (simp add: list_update_append l take_Suc_conv_app_nth)
qed

lemma upt_split: "[a ..< b] = pre @ x # post \<Longrightarrow> x = a + length pre \<and> a + length pre < b"
proof -
  assume e: "[a ..< b] = pre @ x # post"
  from arg_cong [OF e, of length] have l: "length pre < b - a" by simp
  from arg_cong [OF e, of "\<lambda>xs. xs ! length pre"] l have "a + length pre = x" by simp
  with l show ?thesis by simp
qed

lemma place_entry_placing:
  assumes inv: "placing tab cols r ps m st" and t: "Suc m < r"
    and lm: "length mins = length tab" and lc: "length cols = Suc (length tab)"
    and r: "r \<le> length tab" and ps: "ps < length tab"
    and lq: "length (free_positions tab r ps) = r - 1"
    and mn: "mins ! (free_positions tab r ps ! m) \<le> m"
  shows "\<exists>st'. place_entry mins tab cols r (Suc m) st = Inr st' \<and> placing tab cols r ps (Suc m) st'"
proof -
  let ?qs = "free_positions tab r ps"
  let ?q = "?qs ! m"
  obtain new_tab new_cols changed where st: "st = (new_tab, new_cols, changed)" by (cases st)
  from inv [unfolded placing_def st prod.case]
  have ch: "changed = map int (take m ?qs) @ replicate (r - 1 - m) (- 1) @ [int ps]"
    and lnt: "length new_tab = length tab" and nps: "new_tab ! ps = r"
    and filled: "\<And>u. u < m \<Longrightarrow> new_tab ! (?qs ! u) = Suc u"
    and kept: "\<And>i. i < length tab \<Longrightarrow> i \<noteq> ps \<Longrightarrow> i \<notin> set (take m ?qs) \<Longrightarrow> new_tab ! i = tab ! i"
    and lnc: "length new_cols = length cols" and ncr: "new_cols ! r = cols ! (tab ! ps)"
    and cfilled: "\<And>u. u < m \<Longrightarrow> new_cols ! Suc u = cols ! (tab ! (?qs ! u))"
    and ckept: "\<And>v. v < length cols \<Longrightarrow> v \<noteq> r \<Longrightarrow> v = 0 \<or> m < v \<Longrightarrow> new_cols ! v = cols ! v"
    by blast+
  from t lq have m: "m < length ?qs" by simp
  then have "?q \<in> set ?qs" by (rule nth_mem)
  then have q: "?q < length tab" "tab ! ?q \<le> r" "?q \<noteq> ps" by (simp_all add: set_free_positions)
  have qnew: "?q \<notin> set (take m ?qs)"
    by (rule nth_not_in_take [OF distinct_free_positions m])
  have in_changed: "int i \<in> set changed \<longleftrightarrow> i = ps \<or> i \<in> set (take m ?qs)" for i
    unfolding ch by auto
  have before: "\<forall>i. 0 \<le> i \<and> i < ?q \<longrightarrow> Suc m \<le> mins ! i \<or> r < tab ! i \<or> int i \<in> set changed"
  proof (intro allI impI)
    fix i assume i: "0 \<le> i \<and> i < ?q"
    show "Suc m \<le> mins ! i \<or> r < tab ! i \<or> int i \<in> set changed"
    proof (cases "tab ! i \<le> r \<and> i \<noteq> ps")
      case True
      with i q(1) have "i \<in> set ?qs" by (simp add: set_free_positions)
      from sorted_before_in_take [OF sorted_free_positions m this] i
      have "i \<in> set (take m ?qs)" by simp
      then show ?thesis by (simp add: in_changed)
    next
      case False
      then show ?thesis by (auto simp: in_changed)
    qed
  qed
  have found: "find_i mins tab changed r (Suc m) 0 = Inr ?q"
  proof (rule find_i_finds [OF _ _ q(1) before])
    show "0 \<le> ?q" by simp
    show "?q < length mins" using q(1) lm by simp
    show "\<not> Suc m \<le> mins ! ?q" using mn by simp
    show "\<not> r < tab ! ?q" using q(2) by simp
    show "int ?q \<notin> set changed" using q(3) qnew by (simp add: in_changed)
  qed
  from q(1) lnt have s1: "set_at new_tab ?q (Suc m) = Inr (new_tab[?q := Suc m])"
    by (simp add: set_at_Inr)
  from q(1) have s2: "get_at tab ?q = Inr (tab ! ?q)" by (rule get_at_Inr)
  from q(2) r lc have s3: "get_at cols (tab ! ?q) = Inr (cols ! (tab ! ?q))" by (simp add: get_at_Inr)
  from t r lc lnc have s4: "set_at new_cols (Suc m) (cols ! (tab ! ?q)) = Inr (new_cols[Suc m := cols ! (tab ! ?q)])"
    by (simp add: set_at_Inr)
  from t m have lch: "length changed = r" unfolding ch by simp
  with t have s5: "set_at changed m (int ?q) = Inr (changed[m := int ?q])" by (simp add: set_at_Inr)
  let ?st' = "(new_tab[?q := Suc m], new_cols[Suc m := cols ! (tab ! ?q)], changed[m := int ?q])"
  have run: "place_entry mins tab cols r (Suc m) st = Inr ?st'"
    unfolding place_entry_def st by (simp add: found s1 s2 s3 s4 s5)
  have tk: "take (Suc m) ?qs = take m ?qs @ [?q]" using m by (simp add: take_Suc_conv_app_nth)
  have "placing tab cols r ps (Suc m) ?st'"
    unfolding placing_def prod.case
  proof (intro conjI allI impI)
    show "changed[m := int ?q] = map int (take (Suc m) ?qs) @ replicate (r - 1 - Suc m) (- 1) @ [int ps]"
      unfolding ch by (rule changed_update [OF m t])
    show "length (new_tab[?q := Suc m]) = length tab" using lnt by simp
    show "new_tab[?q := Suc m] ! ps = r" using q(3) nps by simp
    show "length (new_cols[Suc m := cols ! (tab ! ?q)]) = length cols" using lnc by simp
    show "new_cols[Suc m := cols ! (tab ! ?q)] ! r = cols ! (tab ! ps)" using t ncr by simp
  next
    fix u assume u: "u < Suc m"
    show "new_tab[?q := Suc m] ! (?qs ! u) = Suc u"
    proof (cases "u = m")
      case True
      with q(1) lnt show ?thesis by simp
    next
      case False
      with u have um: "u < m" by simp
      with m distinct_free_positions [of tab r ps] have "?qs ! u \<noteq> ?q"
        by (simp add: nth_eq_iff_index_eq)
      with filled [OF um] show ?thesis by simp
    qed
    show "new_cols[Suc m := cols ! (tab ! ?q)] ! Suc u = cols ! (tab ! (?qs ! u))"
    proof (cases "u = m")
      case True
      with t r lc lnc show ?thesis by simp
    next
      case False
      with u have um: "u < m" by simp
      with cfilled [OF um] show ?thesis by simp
    qed
  next
    fix i assume i: "i < length tab" "i \<noteq> ps" "i \<notin> set (take (Suc m) ?qs)"
    then have "i \<noteq> ?q" "i \<notin> set (take m ?qs)" unfolding tk by simp_all
    with kept [OF i(1,2)] show "new_tab[?q := Suc m] ! i = tab ! i" by simp
  next
    fix v assume v: "v < length cols" "v \<noteq> r" "v = 0 \<or> Suc m < v"
    then have "v \<noteq> Suc m" "v = 0 \<or> m < v" by auto
    with ckept [OF v(1,2)] show "new_cols[Suc m := cols ! (tab ! ?q)] ! v = cols ! v" by simp
  qed
  with run show ?thesis by blast
qed

lemma place_placing:
  assumes r: "0 < r" "r \<le> length tab" and ps: "ps < length tab"
    and lm: "length mins = length tab" and lc: "length cols = Suc (length tab)"
    and lq: "length (free_positions tab r ps) = r - 1"
    and mn: "\<And>m. m < r - 1 \<Longrightarrow> mins ! (free_positions tab r ps ! m) \<le> m"
  shows "\<exists>st'. place mins tab cols r
                  (tab[ps := r], cols[r := cols ! (tab ! ps)], (replicate r (- 1))[r - 1 := int ps]) = Inr st'
               \<and> placing tab cols r ps (r - 1) st'"
proof -
  let ?st = "(tab[ps := r], cols[r := cols ! (tab ! ps)], (replicate r (- 1))[r - 1 := int ps])"
  have "\<exists>st'. for_loop [1 ..< r] (place_entry mins tab cols r) ?st = Inr st'
               \<and> placing tab cols r ps (length [1 ..< r]) st'"
  proof (rule for_loop_invariant [where P = "\<lambda>pre. placing tab cols r ps (length pre)"])
    show "placing tab cols r ps (length []) ?st"
      using r ps lc changed_first [OF r(1), of "- 1" "int ps"] by (simp add: placing_def)
  next
    fix pre x post s
    assume xs: "[1 ..< r] = pre @ x # post" and inv: "placing tab cols r ps (length pre) s"
    from upt_split [OF xs] have x: "x = Suc (length pre)" "Suc (length pre) < r" by simp_all
    then have "length pre < r - 1" by simp
    from place_entry_placing [OF inv x(2) lm lc r(2) ps lq mn [OF this]] x(1)
    show "\<exists>s'. place_entry mins tab cols r x s = Inr s' \<and> placing tab cols r ps (length (pre @ [x])) s'"
      by simp
  qed
  then show ?thesis by (simp add: place_def)
qed

subsection \<open>The entry that \<open>r\<close> is swapped with\<close>

lemma partition_rows:
  assumes "is_partition la" "r' \<le> r" "r < length la"
  shows "la ! r \<le> la ! r'"
  using assms by (simp add: is_partition_def sorted_rev_nth_mono)

lemma sum_list_drop_mono: "m \<le> m' \<Longrightarrow> sum_list (drop m' (xs :: nat list)) \<le> sum_list (drop m xs)"
proof -
  assume "m \<le> m'"
  then obtain d where m': "m' = d + m" by (metis le_add_diff_inverse2)
  have "sum_list (drop m xs) = sum_list (take d (drop m xs) @ drop d (drop m xs))"
    by (simp only: append_take_drop_id)
  then have "sum_list (drop m xs) = sum_list (take d (drop m xs)) + sum_list (drop d (drop m xs))"
    by (simp only: sum_list_append)
  then show ?thesis by (simp add: m')
qed

lemma offset_later:
  assumes "k < k'" "k' < length mu"
  shows "width (mu ! k') + offset mu k' \<le> offset mu k"
proof -
  from assms(1) have "Suc k \<le> k'" by simp
  then have "sum_list (drop k' (map width mu)) \<le> sum_list (drop (Suc k) (map width mu))"
    by (rule sum_list_drop_mono)
  with offset_step [OF assms(2)] show ?thesis by (simp add: offset_def drop_map)
qed

lemma gcol_component:
  assumes mu: "is_partition_tuple mu" and a: "a \<in> set (cells mu)" and b: "b \<in> set (cells mu)"
    and lt: "fst a < fst b"
  shows "gcol mu b < gcol mu a"
proof -
  obtain k r c where A: "a = (k, r, c)" by (cases a)
  obtain k' r' c' where B: "b = (k', r', c')" by (cases b)
  from b B have k': "k' < length mu" and r': "r' < length (mu ! k')" and c': "c' < mu ! k' ! r'"
    by (simp_all add: in_cells)
  from mu k' have "is_partition (mu ! k')" by (simp add: is_partition_tuple_def)
  from partition_rows [OF this _ r', of 0] r' have "mu ! k' ! r' \<le> width (mu ! k')"
    by (auto simp: width_def)
  with c' have "c' + offset mu k' < width (mu ! k') + offset mu k'" by simp
  also from lt A B k' have "\<dots> \<le> offset mu k" by (intro offset_later) simp_all
  finally show ?thesis by (simp add: A B gcol_def)
qed

lemma max_row_loop_found:
  assumes c: "c \<le> length mu" and n: "length tab = length (cells mu)"
    and ex: "\<exists>i < clen mu ! c. tab ! i < r \<and> cols ! r < cols ! (tab ! i)"
  shows "\<exists>p. max_row_loop mu tab cols r c = Inr (Some (tab ! p)) \<and> p < clen mu ! c \<and>
              tab ! p < r \<and> cols ! r < cols ! (tab ! p) \<and>
              (\<forall>q. p < q \<and> q < clen mu ! c \<longrightarrow> \<not> (tab ! q < r \<and> cols ! r < cols ! (tab ! q)))"
  using c ex
proof (induction c)
  case 0
  then show ?case by (simp add: clen_nth)
next
  case (Suc c)
  let ?a = "clen mu ! c" and ?b = "clen mu ! Suc c"
  let ?P = "\<lambda>m. m < r \<and> cols ! r < cols ! m"
  from Suc.prems(1) have g: "get_at (clen mu) c = Inr ?a" "get_at (clen mu) (Suc c) = Inr ?b"
    by (simp_all add: get_at_Inr length_clen)
  from Suc.prems(1) have b: "?b \<le> length tab" using clen_le [of "Suc c" mu] n by simp
  from Suc.prems(1) have ab: "?a \<le> ?b" by (intro clen_mono) simp_all
  show ?case
  proof (cases "filter ?P (py_slice tab ?a ?b) = []")
    case True
    then have none: "\<forall>i. ?a \<le> i \<and> i < ?b \<longrightarrow> \<not> ?P (tab ! i)"
      by (simp only: filter_slice_empty [OF b])
    from Suc.prems(2) obtain i where i: "i < ?b" "?P (tab ! i)" by blast
    with none have "i < ?a" by (metis not_le_imp_less)
    with i(2) have "\<exists>i < ?a. tab ! i < r \<and> cols ! r < cols ! (tab ! i)" by blast
    from Suc.IH [OF _ this] Suc.prems(1) obtain p where
      p: "max_row_loop mu tab cols r c = Inr (Some (tab ! p))" "p < ?a" "?P (tab ! p)"
        "\<forall>q. p < q \<and> q < ?a \<longrightarrow> \<not> ?P (tab ! q)" by auto
    have "\<forall>q. p < q \<and> q < ?b \<longrightarrow> \<not> ?P (tab ! q)"
    proof (intro allI impI)
      fix q assume q: "p < q \<and> q < ?b"
      show "\<not> ?P (tab ! q)"
      proof (cases "q < ?a")
        case True
        with p(4) q show ?thesis by blast
      next
        case False
        with none q show ?thesis by simp
      qed
    qed
    moreover from True p(1) have "max_row_loop mu tab cols r (Suc c) = Inr (Some (tab ! p))"
      by (simp add: g)
    moreover from p(2) ab have "p < ?b" by simp
    ultimately show ?thesis using p(3) by blast
  next
    case False
    from last_filter_slice [OF b False] obtain p where
      p: "?a \<le> p" "p < ?b" "?P (tab ! p)" "\<forall>q. p < q \<and> q < ?b \<longrightarrow> \<not> ?P (tab ! q)"
        "last (filter ?P (py_slice tab ?a ?b)) = tab ! p" by blast
    from False p(5) have "max_row_loop mu tab cols r (Suc c) = Inr (Some (tab ! p))"
      by (simp add: g)
    with p show ?thesis by blast
  qed
qed

lemma valid_stateD:
  assumes "valid_state mu mins tab cols"
  shows "length tab = length (cells mu)" "distinct tab" "set tab = {1 .. length (cells mu)}"
    "length cols = Suc (length (cells mu))" "cols ! 0 = 0" "mins = map cell_sum (cells mu)"
    "\<And>i. i < length (cells mu) \<Longrightarrow> cols ! (tab ! i) = gcol mu (cells mu ! i)"
    "\<And>i j. i < length (cells mu) \<Longrightarrow> j < length (cells mu) \<Longrightarrow> i \<noteq> j \<Longrightarrow>
        nw (cells mu ! i) (cells mu ! j) \<Longrightarrow> tab ! i < tab ! j"
  using assms unfolding valid_state_def by blast+

lemma descent_bounds:
  assumes v: "valid_state mu mins tab cols" and r: "find_r cols 1 \<noteq> length cols"
  shows "2 \<le> find_r cols 1" "find_r cols 1 \<le> length (cells mu)"
    "cols ! find_r cols 1 < cols ! (find_r cols 1 - 1)"
proof -
  note d = valid_stateD [OF v]
  from d(4) have "find_r cols 1 \<le> length cols" by (intro find_r_le) simp
  with r have lt: "find_r cols 1 < length cols" by simp
  with d(4) show "find_r cols 1 \<le> length (cells mu)" by simp
  from find_r_descent [OF lt] show desc: "cols ! find_r cols 1 < cols ! (find_r cols 1 - 1)" .
  have "1 \<le> find_r cols 1" by (rule find_r_ge)
  moreover have "find_r cols 1 \<noteq> 1" using desc d(5) by auto
  ultimately show "2 \<le> find_r cols 1" by simp
qed

text \<open>
  At a descent \<open>max_row_in_component\<close> returns an entry: \<open>r - 1\<close> is in the component of \<open>r\<close>
  or in an earlier one and has a larger column index.  No cell with an entry up to \<open>r\<close> lies
  to the right of or below the cell of the entry returned.
\<close>

lemma max_row_in_component_found:
  assumes mu: "is_partition_tuple mu" and v: "valid_state mu mins tab cols"
    and r2: "2 \<le> r" and rn: "r \<le> length (cells mu)" and desc: "cols ! r < cols ! (r - 1)"
  shows "\<exists>ps. max_row_in_component mu tab cols r = Inr (Some (tab ! ps)) \<and> ps < length (cells mu) \<and>
               tab ! ps < r \<and> cols ! r < cols ! (tab ! ps) \<and>
               (\<forall>j < length (cells mu). j \<noteq> ps \<longrightarrow> tab ! j \<le> r \<longrightarrow> \<not> nw (cells mu ! ps) (cells mu ! j)) \<and>
               (\<forall>j < length (cells mu). tab ! j < r \<longrightarrow> cols ! r < cols ! (tab ! j) \<longrightarrow> j \<le> ps)"
proof -
  let ?n = "length (cells mu)"
  note d = valid_stateD [OF v]
  let ?P = "\<lambda>i. tab ! i < r \<and> cols ! r < cols ! (tab ! i)"
  from r2 rn d(3) have "r \<in> set tab" by simp
  from index_in_found [OF this] d(1) obtain pr where
    pr: "index_in tab r = Inr pr" "pr < ?n" "tab ! pr = r" by auto
  obtain kr rr cr where cr: "cells mu ! pr = (kr, rr, cr)" by (cases "cells mu ! pr")
  from component_nth [OF pr(2) cr] have comp: "get_at (component mu) pr = Inr (Suc kr)"
    by (simp add: get_at_Inr)
  note br = nth_cells_bounds [OF pr(2) cr]
  from r2 rn d(3) have "r - 1 \<in> set tab" by auto
  with d(1) obtain p1 where p1: "p1 < ?n" "tab ! p1 = r - 1" by (auto simp: in_set_conv_nth)
  obtain k1 r1 c1 where c1: "cells mu ! p1 = (k1, r1, c1)" by (cases "cells mu ! p1")
  note b1 = nth_cells_bounds [OF p1(1) c1]
  from desc d(7) [OF pr(2)] d(7) [OF p1(1)] pr(3) p1(2)
  have g: "gcol mu (cells mu ! pr) < gcol mu (cells mu ! p1)" by simp
  have "k1 \<le> kr"
  proof (rule ccontr)
    assume "\<not> k1 \<le> kr"
    then have "fst (cells mu ! pr) < fst (cells mu ! p1)" by (simp add: cr c1)
    from gcol_component [OF mu nth_mem [OF pr(2)] nth_mem [OF p1(1)] this] g show False by simp
  qed
  then have "clen mu ! Suc k1 \<le> clen mu ! Suc kr" using br(1) by (intro clen_mono) simp_all
  with b1(3) have "p1 < clen mu ! Suc kr" by simp
  moreover from p1(2) r2 desc have "?P p1" by simp
  ultimately have ex: "\<exists>i < clen mu ! Suc kr. ?P i" by blast
  from br(1) have "Suc kr \<le> length mu" by simp
  from max_row_loop_found [OF this d(1) ex] obtain ps where
    ps: "max_row_loop mu tab cols r (Suc kr) = Inr (Some (tab ! ps))" "ps < clen mu ! Suc kr"
      "?P ps" "\<forall>q. ps < q \<and> q < clen mu ! Suc kr \<longrightarrow> \<not> ?P q" by blast
  from br(1) have "clen mu ! Suc kr \<le> ?n" by (intro clen_le) simp
  with ps(2) have psn: "ps < ?n" by simp
  have run: "max_row_in_component mu tab cols r = Inr (Some (tab ! ps))"
    unfolding max_row_in_component_def pr(1) and_then_Inr comp ps(1) by (rule refl)
  obtain k rho kap where cs: "cells mu ! ps = (k, rho, kap)" by (cases "cells mu ! ps")
  note bs = nth_cells_bounds [OF psn cs]
  have kkr: "k \<le> kr"
  proof (rule ccontr)
    assume "\<not> k \<le> kr"
    then have "clen mu ! Suc kr \<le> clen mu ! k" using bs(1) by (intro clen_mono) simp_all
    with bs(2) ps(2) show False by simp
  qed
  have corner: "\<not> nw (cells mu ! ps) (cells mu ! j)"
    if j: "j < ?n" "j \<noteq> ps" "tab ! j \<le> r" for j
  proof
    assume nw: "nw (cells mu ! ps) (cells mu ! j)"
    obtain k' rho' kap' where cj: "cells mu ! j = (k', rho', kap')" by (cases "cells mu ! j")
    from nw cs cj have same: "k' = k" and kap: "kap \<le> kap'" by (simp_all add: nw_def)
    from kap same have "gcol mu (cells mu ! ps) \<le> gcol mu (cells mu ! j)"
      by (simp add: cs cj gcol_def)
    with d(7) [OF psn] d(7) [OF j(1)] ps(3) have big: "cols ! r < cols ! (tab ! j)" by simp
    then have "tab ! j \<noteq> r" by auto
    with j(3) big have "?P j" by simp
    moreover from nw_index_less [OF psn j(1) _ nw] j(2) have "ps < j" by simp
    moreover have "j < clen mu ! Suc kr"
    proof -
      note bj = nth_cells_bounds [OF j(1) cj]
      from kkr same br(1) have "clen mu ! Suc k' \<le> clen mu ! Suc kr" by (intro clen_mono) simp_all
      with bj(3) show ?thesis by simp
    qed
    ultimately show False using ps(4) by blast
  qed
  have last: "j \<le> ps" if j: "j < ?n" "tab ! j < r" "cols ! r < cols ! (tab ! j)" for j
  proof (rule ccontr)
    assume "\<not> j \<le> ps"
    then have lt: "ps < j" by simp
    obtain k' rho' kap' where cj: "cells mu ! j = (k', rho', kap')" by (cases "cells mu ! j")
    note bj = nth_cells_bounds [OF j(1) cj]
    from j(3) d(7) [OF pr(2)] d(7) [OF j(1)] pr(3)
    have gj: "gcol mu (cells mu ! pr) < gcol mu (cells mu ! j)" by simp
    have "k' \<le> kr"
    proof (rule ccontr)
      assume "\<not> k' \<le> kr"
      then have "fst (cells mu ! pr) < fst (cells mu ! j)" by (simp add: cr cj)
      from gcol_component [OF mu nth_mem [OF pr(2)] nth_mem [OF j(1)] this] gj show False by simp
    qed
    then have "clen mu ! Suc k' \<le> clen mu ! Suc kr" using br(1) by (intro clen_mono) simp_all
    with bj(3) have "j < clen mu ! Suc kr" by simp
    with lt j(2,3) ps(4) show False by blast
  qed
  from run psn ps(3) corner last show ?thesis by blast
qed

subsection \<open>The positions that are filled again\<close>

lemma positions_up_to:
  assumes d: "distinct tab" and s: "set tab = {1 .. length tab}" and r: "r \<le> length tab"
  shows "card {i. i < length tab \<and> tab ! i \<le> r} = r"
proof -
  let ?S = "{i. i < length tab \<and> tab ! i \<le> r}"
  have inj: "inj_on ((!) tab) ?S" by (rule inj_on_nth [OF d]) simp
  have "(!) tab ` ?S = {1 .. r}"
  proof (intro set_eqI iffI)
    fix v assume "v \<in> (!) tab ` ?S"
    then obtain i where i: "i < length tab" "tab ! i \<le> r" "v = tab ! i" by auto
    from i(1) have "tab ! i \<in> set tab" by (rule nth_mem)
    with s i show "v \<in> {1 .. r}" by simp
  next
    fix v assume v: "v \<in> {1 .. r}"
    with r s have "v \<in> set tab" by simp
    then obtain i where "i < length tab" "tab ! i = v" by (auto simp: in_set_conv_nth)
    with v show "v \<in> (!) tab ` ?S" by auto
  qed
  with card_image [OF inj] show ?thesis by simp
qed

lemma length_free_positions:
  assumes d: "distinct tab" and s: "set tab = {1 .. length tab}" and r: "r \<le> length tab"
    and ps: "ps < length tab" "tab ! ps \<le> r"
  shows "length (free_positions tab r ps) = r - 1"
proof -
  let ?S = "{i. i < length tab \<and> tab ! i \<le> r}"
  have "length (free_positions tab r ps) = card {i. i < length tab \<and> tab ! i \<le> r \<and> i \<noteq> ps}"
    unfolding free_positions_def length_filter_conv_card
    by (rule arg_cong [of _ _ card]) auto
  also have "{i. i < length tab \<and> tab ! i \<le> r \<and> i \<noteq> ps} = ?S - {ps}" by auto
  also have "card (?S - {ps}) = card ?S - 1" using ps by (intro card_Diff_singleton) simp
  finally show ?thesis by (simp add: positions_up_to [OF d s r])
qed

text \<open>
  The cells to the left in the row and above in the column of a free position have got
  their entries before it; so the test on \<open>mins\<close> lets the first free position pass.
\<close>

lemma free_position_mins:
  assumes mu: "is_partition_tuple mu" and v: "valid_state mu mins tab cols"
    and ps: "ps < length (cells mu)"
    and corner: "\<And>j. j < length (cells mu) \<Longrightarrow> j \<noteq> ps \<Longrightarrow> tab ! j \<le> r \<Longrightarrow>
                   \<not> nw (cells mu ! ps) (cells mu ! j)"
    and m: "m < length (free_positions tab r ps)"
  shows "mins ! (free_positions tab r ps ! m) \<le> m"
proof -
  let ?n = "length (cells mu)"
  let ?qs = "free_positions tab r ps"
  let ?i = "?qs ! m"
  note d = valid_stateD [OF v]
  from m have "?i \<in> set ?qs" by (rule nth_mem)
  then have i: "?i < ?n" "tab ! ?i \<le> r" "?i \<noteq> ps" by (simp_all add: set_free_positions d(1))
  obtain k rho kap where ci: "cells mu ! ?i = (k, rho, kap)" by (cases "cells mu ! ?i")
  from i(1) have "(k, rho, kap) \<in> set (cells mu)" unfolding ci [symmetric] by (rule nth_mem)
  then have k: "k < length mu" and rho: "rho < length (mu ! k)" and kap: "kap < mu ! k ! rho"
    by (simp_all add: in_cells)
  from mu k have part: "is_partition (mu ! k)" by (simp add: is_partition_tuple_def)
  let ?A = "(\<lambda>c. (k, rho, c)) ` {..< kap} \<union> (\<lambda>r'. (k, r', kap)) ` {..< rho}"
  have cardA: "card ?A = kap + rho"
  proof -
    have "card ((\<lambda>c. (k, rho, c)) ` {..< kap}) = kap"
      by (subst card_image) (auto simp: inj_on_def)
    moreover have "card ((\<lambda>r'. (k, r', kap)) ` {..< rho}) = rho"
      by (subst card_image) (auto simp: inj_on_def)
    moreover have "(\<lambda>c. (k, rho, c)) ` {..< kap} \<inter> (\<lambda>r'. (k, r', kap)) ` {..< rho} = {}" by auto
    ultimately show ?thesis by (subst card_Un_disjoint) simp_all
  qed
  have A_cells: "a \<in> set (cells mu)" if "a \<in> ?A" for a
  proof -
    from that consider c where "a = (k, rho, c)" "c < kap" | r' where "a = (k, r', kap)" "r' < rho"
      by auto
    then show ?thesis
    proof cases
      case 1
      with k rho kap show ?thesis by (simp add: in_cells)
    next
      case 2
      from partition_rows [OF part _ rho, of r'] 2(2) have "mu ! k ! rho \<le> mu ! k ! r'" by simp
      with 2 k rho kap show ?thesis by (simp add: in_cells)
    qed
  qed
  have A_nw: "nw a (cells mu ! ?i) \<and> a \<noteq> cells mu ! ?i" if "a \<in> ?A" for a
    using that by (auto simp: ci nw_def)
  have sub: "position mu ` ?A \<subseteq> set (take m ?qs)"
  proof
    fix j assume "j \<in> position mu ` ?A"
    then obtain a where a: "a \<in> ?A" "j = position mu a" by blast
    note ac = A_cells [OF a(1)]
    from cells_nth_position [of "fst a" "fst (snd a)" "snd (snd a)" mu] ac a(2)
    have j: "j < ?n" "cells mu ! j = a" by simp_all
    from A_nw [OF a(1)] j(2) have nw: "nw (cells mu ! j) (cells mu ! ?i)" and ne: "j \<noteq> ?i" by auto
    from nw_index_less [OF j(1) i(1) ne nw] have lt: "j < ?i" .
    from d(8) [OF j(1) i(1) ne nw] i(2) have tj: "tab ! j \<le> r" by simp
    have "j \<noteq> ps"
    proof
      assume "j = ps"
      with nw corner [OF i(1) i(3) i(2)] show False by simp
    qed
    with j(1) tj have "j \<in> set ?qs" by (simp add: set_free_positions d(1))
    from sorted_before_in_take [OF sorted_free_positions m this lt] show "j \<in> set (take m ?qs)" .
  qed
  have "inj_on (position mu) ?A"
    by (rule inj_onI) (metis A_cells position_inj)
  then have "card ?A = card (position mu ` ?A)" by (simp add: card_image)
  also from sub have "\<dots> \<le> card (set (take m ?qs))" by (intro card_mono) simp_all
  also have "\<dots> \<le> length (take m ?qs)" by (rule card_length)
  also have "\<dots> \<le> m" by simp
  finally have "kap + rho \<le> m" by (simp add: cardA)
  with i(1) show ?thesis by (simp add: d(6) ci cell_sum_def)
qed

subsection \<open>One round\<close>

lemma placing_refilled:
  assumes p: "placing tab cols r ps (r - 1) (tab', cols', changed)"
    and lq: "length (free_positions tab r ps) = r - 1" and r: "0 < r" and ps: "tab ! ps \<le> r"
  shows "refilled tab cols r ps tab' cols'"
proof -
  let ?qs = "free_positions tab r ps"
  from lq have tk: "take (r - 1) ?qs = ?qs" by simp
  from p [unfolded placing_def prod.case tk]
  have 1: "length tab' = length tab" "tab' ! ps = r"
    and 2: "\<And>u. u < r - 1 \<Longrightarrow> tab' ! (?qs ! u) = Suc u"
    and 3: "\<And>i. i < length tab \<Longrightarrow> i \<noteq> ps \<Longrightarrow> i \<notin> set ?qs \<Longrightarrow> tab' ! i = tab ! i"
    and 4: "length cols' = length cols" "cols' ! r = cols ! (tab ! ps)"
    and 5: "\<And>u. u < r - 1 \<Longrightarrow> cols' ! Suc u = cols ! (tab ! (?qs ! u))"
    and 6: "\<And>v. v < length cols \<Longrightarrow> v \<noteq> r \<Longrightarrow> v = 0 \<or> r - 1 < v \<Longrightarrow> cols' ! v = cols ! v"
    by blast+
  have kept: "tab' ! i = tab ! i" if "i < length tab" "r < tab ! i" for i
  proof (rule 3 [OF that(1)])
    from that(2) ps show "i \<noteq> ps" by auto
    from that(2) show "i \<notin> set ?qs" by (simp add: set_free_positions)
  qed
  have ckept: "cols' ! v = cols ! v" if "v < length cols" "v = 0 \<or> r < v" for v
    using that r by (intro 6) auto
  show ?thesis
    unfolding refilled_def lq using 1 2 kept 4 5 ckept by blast
qed

lemma index_in_distinct:
  assumes "distinct xs" "p < length xs"
  shows "index_in xs (xs ! p) = Inr p"
proof -
  from assms(2) have "xs ! p \<in> set xs" by (rule nth_mem)
  from index_in_found [OF this] obtain q where q: "index_in xs (xs ! p) = Inr q" "q < length xs"
    "xs ! q = xs ! p" by blast
  with assms have "q = p" by (simp add: nth_eq_iff_index_eq)
  with q(1) show ?thesis by simp
qed

lemma next_tableau_refilled:
  assumes mu: "is_partition_tuple mu" and v: "valid_state mu mins tab cols"
    and r2: "2 \<le> r" and rn: "r \<le> length (cells mu)" and desc: "cols ! r < cols ! (r - 1)"
  shows "\<exists>ps tab' cols'.
           max_row_in_component mu tab cols r = Inr (Some (tab ! ps)) \<and>
           next_tableau mu mins tab cols r = Inr (Some (tab', cols')) \<and>
           ps < length (cells mu) \<and> tab ! ps < r \<and> cols ! r < cols ! (tab ! ps) \<and>
           (\<forall>j < length (cells mu). j \<noteq> ps \<longrightarrow> tab ! j \<le> r \<longrightarrow> \<not> nw (cells mu ! ps) (cells mu ! j)) \<and>
           (\<forall>j < length (cells mu). tab ! j < r \<longrightarrow> cols ! r < cols ! (tab ! j) \<longrightarrow> j \<le> ps) \<and>
           refilled tab cols r ps tab' cols'"
proof -
  let ?n = "length (cells mu)"
  note d = valid_stateD [OF v]
  from max_row_in_component_found [OF mu v r2 rn desc] obtain ps where
    found: "max_row_in_component mu tab cols r = Inr (Some (tab ! ps))" and ps: "ps < ?n"
    and s: "tab ! ps < r" "cols ! r < cols ! (tab ! ps)"
    and corner: "\<forall>j < ?n. j \<noteq> ps \<longrightarrow> tab ! j \<le> r \<longrightarrow> \<not> nw (cells mu ! ps) (cells mu ! j)"
    and last: "\<forall>j < ?n. tab ! j < r \<longrightarrow> cols ! r < cols ! (tab ! j) \<longrightarrow> j \<le> ps"
    by blast
  let ?qs = "free_positions tab r ps"
  from d(3) d(1) have st: "set tab = {1 .. length tab}" by simp
  from s(1) have sle: "tab ! ps \<le> r" by simp
  from ps d(1) have psl: "ps < length tab" by simp
  from rn d(1) have rl: "r \<le> length tab" by simp
  have lq: "length ?qs = r - 1"
    by (rule length_free_positions [OF d(2) st rl psl sle])
  have mn: "mins ! (?qs ! m) \<le> m" if "m < r - 1" for m
  proof (rule free_position_mins [OF mu v ps])
    show "m < length ?qs" using that lq by simp
    show "\<And>j. j < ?n \<Longrightarrow> j \<noteq> ps \<Longrightarrow> tab ! j \<le> r \<Longrightarrow> \<not> nw (cells mu ! ps) (cells mu ! j)"
      using corner by blast
  qed
  from r2 have r0: "0 < r" by simp
  from d(6) d(1) have lm: "length mins = length tab" by simp
  from d(4) d(1) have lc: "length cols = Suc (length tab)" by simp
  from place_placing [OF r0 rl psl lm lc lq mn] obtain st' where
    run: "place mins tab cols r
            (tab[ps := r], cols[r := cols ! (tab ! ps)], (replicate r (- 1))[r - 1 := int ps]) = Inr st'"
    and pl: "placing tab cols r ps (r - 1) st'" by blast
  obtain tab' cols' changed where st': "st' = (tab', cols', changed)" by (cases st')
  from pl st' have "placing tab cols r ps (r - 1) (tab', cols', changed)" by simp
  from placing_refilled [OF this lq r0 sle] have ref: "refilled tab cols r ps tab' cols'" .
  have i1: "index_in tab (tab ! ps) = Inr ps" by (rule index_in_distinct [OF d(2) psl])
  have i2: "set_at tab ps r = Inr (tab[ps := r])" using psl by (rule set_at_Inr)
  from s(1) rl lc have i3: "get_at cols (tab ! ps) = Inr (cols ! (tab ! ps))" by (simp add: get_at_Inr)
  from rl lc have i4: "set_at cols r (cols ! (tab ! ps)) = Inr (cols[r := cols ! (tab ! ps)])"
    by (simp add: set_at_Inr)
  from r0 have i5: "set_at (replicate r (- 1 :: int)) (r - 1) (int ps)
      = Inr ((replicate r (- 1))[r - 1 := int ps])" by (simp add: set_at_Inr)
  have "next_tableau mu mins tab cols r = Inr (Some (tab', cols'))"
    unfolding next_tableau_def found and_then_Inr option.case i1 i2 i3 i4 i5 run st' by simp
  with found ps s corner last ref show ?thesis by blast
qed

subsection \<open>The next state is a state of the loop again\<close>

lemma sorted_distinct_nth_less:
  assumes "sorted xs" "distinct xs" "u < length xs" "w < length xs" "xs ! u < xs ! w"
  shows "u < w"
proof (rule ccontr)
  assume "\<not> u < w"
  then have "w \<le> u" by simp
  from sorted_nth_mono [OF assms(1) this assms(3)] assms(5) show False by simp
qed

lemma refilled_valid:
  assumes v: "valid_state mu mins tab cols"
    and r: "0 < r" "r \<le> length (cells mu)"
    and ps: "ps < length (cells mu)" "tab ! ps < r"
    and corner: "\<forall>j < length (cells mu). j \<noteq> ps \<longrightarrow> tab ! j \<le> r \<longrightarrow>
                   \<not> nw (cells mu ! ps) (cells mu ! j)"
    and ref: "refilled tab cols r ps tab' cols'"
  shows "valid_state mu mins tab' cols'"
proof -
  let ?n = "length (cells mu)"
  let ?qs = "free_positions tab r ps"
  note d = valid_stateD [OF v]
  from d(3) d(1) have st: "set tab = {1 .. length tab}" by simp
  from ps(2) have sle: "tab ! ps \<le> r" by simp
  have lq: "length ?qs = r - 1"
    using length_free_positions [OF d(2) st _ _ sle] r(2) ps(1) d(1) by simp
  from ref [unfolded refilled_def lq]
  have lt: "length tab' = length tab" and tps: "tab' ! ps = r"
    and tq: "\<And>u. u < r - 1 \<Longrightarrow> tab' ! (?qs ! u) = Suc u"
    and tk: "\<And>i. i < length tab \<Longrightarrow> r < tab ! i \<Longrightarrow> tab' ! i = tab ! i"
    and lc: "length cols' = length cols" and cr: "cols' ! r = cols ! (tab ! ps)"
    and cq: "\<And>u. u < r - 1 \<Longrightarrow> cols' ! Suc u = cols ! (tab ! (?qs ! u))"
    and ck: "\<And>v. v < length cols \<Longrightarrow> v = 0 \<or> r < v \<Longrightarrow> cols' ! v = cols ! v"
    by blast+
  have q: "?qs ! u < ?n \<and> tab ! (?qs ! u) \<le> r \<and> ?qs ! u \<noteq> ps" if "u < r - 1" for u
  proof -
    from that lq have "?qs ! u \<in> set ?qs" by simp
    then show ?thesis by (simp add: set_free_positions d(1))
  qed
  have classify: "i = ps \<or> (\<exists>u < r - 1. ?qs ! u = i) \<or> r < tab ! i" if "i < ?n" for i
  proof (cases "i \<noteq> ps \<and> tab ! i \<le> r")
    case True
    with that have "i \<in> set ?qs" by (simp add: set_free_positions d(1))
    then obtain u where "u < length ?qs" "?qs ! u = i" by (auto simp: in_set_conv_nth)
    with lq show ?thesis by auto
  next
    case False
    then show ?thesis by auto
  qed
  have bound: "tab ! i \<le> ?n" if "i < ?n" for i
  proof -
    from that d(1) have "tab ! i \<in> set tab" by simp
    with d(3) show ?thesis by simp
  qed
  have n': "length tab' = ?n" using lt d(1) by simp
  have sup: "{1 .. ?n} \<subseteq> set tab'"
  proof
    fix x assume x: "x \<in> {1 .. ?n}"
    consider "x = r" | "x < r" | "r < x" by linarith
    then show "x \<in> set tab'"
    proof cases
      case 1
      from ps(1) n' have "tab' ! ps \<in> set tab'" by simp
      with 1 tps show ?thesis by simp
    next
      case 2
      with x have u: "x - 1 < r - 1" by auto
      from q [OF u] n' have "tab' ! (?qs ! (x - 1)) \<in> set tab'" by simp
      with tq [OF u] x show ?thesis by simp
    next
      case 3
      from x d(3) have "x \<in> set tab" by simp
      then obtain i where i: "i < length tab" "tab ! i = x" by (auto simp: in_set_conv_nth)
      with 3 tk [of i] have "tab' ! i = x" by simp
      moreover from i(1) lt have "tab' ! i \<in> set tab'" by simp
      ultimately show ?thesis by simp
    qed
  qed
  have "card (set tab') \<le> card {1 .. ?n}" using card_length [of tab'] n' by simp
  from card_seteq [OF _ sup this] have set': "set tab' = {1 .. ?n}" by simp
  then have "card (set tab') = length tab'" using n' by simp
  then have dist': "distinct tab'" by (rule card_distinct)
  have c0: "cols' ! 0 = 0" using ck [of 0] d(4,5) by simp
  have cols: "cols' ! (tab' ! i) = gcol mu (cells mu ! i)" if i: "i < ?n" for i
  proof -
    from classify [OF i] consider "i = ps" | u where "u < r - 1" "?qs ! u = i" | "r < tab ! i"
      by blast
    then show ?thesis
    proof cases
      case 1
      with tps cr d(7) [OF ps(1)] show ?thesis by simp
    next
      case 2
      with tq [OF 2(1)] cq [OF 2(1)] d(7) [OF i] show ?thesis by simp
    next
      case 3
      from bound [OF i] d(4) have "tab ! i < length cols" by simp
      from ck [OF this] 3 have "cols' ! (tab ! i) = cols ! (tab ! i)" by simp
      with tk [of i] i d(1) 3 d(7) [OF i] show ?thesis by simp
    qed
  qed
  have order: "tab' ! i < tab' ! j"
    if i: "i < ?n" and j: "j < ?n" and ne: "i \<noteq> j" and nw: "nw (cells mu ! i) (cells mu ! j)" for i j
  proof -
    note old = d(8) [OF i j ne nw]
    from classify [OF j] consider "r < tab ! j" | "j = ps" | w where "w < r - 1" "?qs ! w = j"
      by blast
    then show ?thesis
    proof cases
      case 1
      then have tj: "tab' ! j = tab ! j" using tk [of j] j d(1) by simp
      from classify [OF i] consider "r < tab ! i" | "i = ps" | u where "u < r - 1" "?qs ! u = i"
        by blast
      then show ?thesis
      proof cases
        case 1
        then have "tab' ! i = tab ! i" using tk [of i] i d(1) by simp
        with tj old show ?thesis by simp
      next
        case 2
        with tps tj \<open>r < tab ! j\<close> show ?thesis by simp
      next
        case 3
        with tq [OF 3(1)] tj \<open>r < tab ! j\<close> show ?thesis by simp
      qed
    next
      case 2
      from classify [OF i] consider "r < tab ! i" | "i = ps" | u where "u < r - 1" "?qs ! u = i"
        by blast
      then show ?thesis
      proof cases
        case 1
        with old 2 ps(2) show ?thesis by simp
      next
        case 2
        with \<open>j = ps\<close> ne show ?thesis by simp
      next
        case 3
        with tq [OF 3(1)] 2 tps show ?thesis by simp
      qed
    next
      case 3
      from q [OF 3(1)] 3(2) have jr: "tab ! j \<le> r" "j \<noteq> ps" by simp_all
      from classify [OF i] consider "r < tab ! i" | "i = ps" | u where "u < r - 1" "?qs ! u = i"
        by blast
      then show ?thesis
      proof cases
        case 1
        with old jr(1) show ?thesis by simp
      next
        case 2
        with corner j jr nw show ?thesis by blast
      next
        case u: 3
        from nw_index_less [OF i j ne nw] u(2) 3(2) have "?qs ! u < ?qs ! w" by simp
        from sorted_distinct_nth_less [OF sorted_free_positions distinct_free_positions _ _ this]
          u(1) 3(1) lq have "u < w" by simp
        with tq [OF u(1)] tq [OF 3(1)] u(2) 3(2) show ?thesis by simp
      qed
    qed
  qed
  from lc d(4) have lc': "length cols' = Suc ?n" by simp
  show ?thesis
    unfolding valid_state_def
    using n' dist' set' lc' c0 d(6) cols order by blast
qed

subsection \<open>The loop comes to an end\<close>

lemma weight_append: "weight B (xs @ ys) = weight B xs + B ^ length xs * weight B ys"
  by (induction xs) (simp_all add: algebra_simps)

lemma weight_bound: "\<forall>x \<in> set xs. x < B \<Longrightarrow> weight B xs < B ^ length xs"
proof (induction xs)
  case Nil
  then show ?case by simp
next
  case (Cons x xs)
  then have x: "x < B" and w: "weight B xs < B ^ length xs" by simp_all
  from w have "Suc (weight B xs) \<le> B ^ length xs" by simp
  then have "B * Suc (weight B xs) \<le> B * B ^ length xs" by (rule mult_le_mono2)
  with x show ?case by simp
qed

lemma weight_increase:
  assumes len: "length cols' = length cols" and r: "r < length cols"
    and small: "\<forall>v < r. cols ! v < B"
    and same: "\<forall>v < length cols. r < v \<longrightarrow> cols' ! v = cols ! v"
    and up: "cols ! r < cols' ! r"
  shows "weight B cols < weight B cols'"
proof -
  have rest: "drop (Suc r) cols' = drop (Suc r) cols"
    using len same by (intro nth_equalityI) simp_all
  let ?W = "weight B (drop (Suc r) cols)"
  from r have c: "cols = take r cols @ cols ! r # drop (Suc r) cols"
    by (simp add: id_take_nth_drop [symmetric])
  from r len have c': "cols' = take r cols' @ cols' ! r # drop (Suc r) cols"
    using id_take_nth_drop [of r cols'] rest by simp
  from r have l: "length (take r cols) = r" by simp
  from r len have l': "length (take r cols') = r" by simp
  have "\<forall>x \<in> set (take r cols). x < B"
    using small r by (auto simp: in_set_conv_nth)
  from weight_bound [OF this] l have lo: "weight B (take r cols) < B ^ r" by simp
  have "weight B cols = weight B (take r cols @ cols ! r # drop (Suc r) cols)"
    by (rule arg_cong [OF c])
  also have "\<dots> = weight B (take r cols) + B ^ r * (cols ! r + B * ?W)"
    using r by (simp add: weight_append min_def)
  also from lo have "\<dots> < B ^ r + B ^ r * (cols ! r + B * ?W)" by simp
  also have "\<dots> = B ^ r * (Suc (cols ! r) + B * ?W)" by (simp add: algebra_simps)
  also from up have "\<dots> \<le> B ^ r * (cols' ! r + B * ?W)" by (intro mult_le_mono2) simp
  also have "\<dots> \<le> weight B (take r cols') + B ^ r * (cols' ! r + B * ?W)" by simp
  also have "\<dots> = weight B (take r cols' @ cols' ! r # drop (Suc r) cols)"
    using r len by (simp add: weight_append min_def)
  also have "\<dots> = weight B cols'"
    by (rule arg_cong [OF c' [symmetric]])
  finally show ?thesis .
qed

lemma gcol_less_base:
  assumes mu: "is_partition_tuple mu" and a: "a \<in> set (cells mu)"
  shows "gcol mu a < base mu"
proof -
  obtain k r c where A: "a = (k, r, c)" by (cases a)
  from a A have k: "k < length mu" and r: "r < length (mu ! k)" and c: "c < mu ! k ! r"
    by (simp_all add: in_cells)
  from mu k have "is_partition (mu ! k)" by (simp add: is_partition_tuple_def)
  from partition_rows [OF this _ r, of 0] r have "mu ! k ! r \<le> width (mu ! k)"
    by (auto simp: width_def)
  with c have "c + offset mu k < width (mu ! k) + offset mu k" by simp
  also have "\<dots> = sum_list (drop k (map width mu))" using offset_step [OF k] by (simp add: drop_map)
  also have "\<dots> \<le> sum_list (drop 0 (map width mu))" by (rule sum_list_drop_mono) simp
  finally show ?thesis by (simp add: A gcol_def base_def)
qed

lemma valid_cols_small:
  assumes mu: "is_partition_tuple mu" and v: "valid_state mu mins tab cols"
  shows "\<forall>x \<in> set cols. x < base mu"
proof
  fix x assume "x \<in> set cols"
  note d = valid_stateD [OF v]
  from \<open>x \<in> set cols\<close> d(4) obtain w where w: "w \<le> length (cells mu)" "cols ! w = x"
    by (auto simp: in_set_conv_nth less_Suc_eq_le)
  show "x < base mu"
  proof (cases "w = 0")
    case True
    with w d(5) show ?thesis by (simp add: base_def)
  next
    case False
    with w d(3) have "w \<in> set tab" by simp
    with d(1) obtain i where i: "i < length (cells mu)" "tab ! i = w" by (auto simp: in_set_conv_nth)
    from d(7) [OF i(1)] i(2) w(2) gcol_less_base [OF mu nth_mem [OF i(1)]] show ?thesis by simp
  qed
qed

lemma advance_valid:
  assumes mu: "is_partition_tuple mu" and v: "valid_state mu mins tab cols"
    and r: "find_r cols 1 \<noteq> length cols"
  shows "\<exists>s tab' cols'.
           max_row_in_component mu tab cols (find_r cols 1) = Inr (Some s) \<and>
           advance mu mins tab cols = Inr (Some (tab', cols')) \<and>
           valid_state mu mins tab' cols' \<and> weight (base mu) cols < weight (base mu) cols'"
proof -
  let ?r = "find_r cols 1"
  note d = valid_stateD [OF v]
  note b = descent_bounds [OF v r]
  from next_tableau_refilled [OF mu v b] obtain ps tab' cols' where
    found: "max_row_in_component mu tab cols ?r = Inr (Some (tab ! ps))"
    and run: "next_tableau mu mins tab cols ?r = Inr (Some (tab', cols'))"
    and ps: "ps < length (cells mu)" "tab ! ps < ?r" "cols ! ?r < cols ! (tab ! ps)"
    and corner: "\<forall>j < length (cells mu). j \<noteq> ps \<longrightarrow> tab ! j \<le> ?r \<longrightarrow>
                   \<not> nw (cells mu ! ps) (cells mu ! j)"
    and ref: "refilled tab cols ?r ps tab' cols'" by blast
  from b(1) have r0: "0 < ?r" by simp
  from refilled_valid [OF v r0 b(2) ps(1,2) corner ref] have v': "valid_state mu mins tab' cols'" .
  from ref have lc: "length cols' = length cols" and cr: "cols' ! ?r = cols ! (tab ! ps)"
    and ck: "\<forall>w < length cols. w = 0 \<or> ?r < w \<longrightarrow> cols' ! w = cols ! w"
    unfolding refilled_def by blast+
  from b(2) d(4) have rl: "?r < length cols" by simp
  have small: "\<forall>w < ?r. cols ! w < base mu"
    using valid_cols_small [OF mu v] rl by simp
  have "weight (base mu) cols < weight (base mu) cols'"
  proof (rule weight_increase [OF lc rl small])
    show "\<forall>w < length cols. ?r < w \<longrightarrow> cols' ! w = cols ! w" using ck by blast
    show "cols ! ?r < cols' ! ?r" using ps(3) cr by simp
  qed
  moreover from r run have "advance mu mins tab cols = Inr (Some (tab', cols'))"
    by (simp add: advance_def)
  ultimately show ?thesis using found v' by blast
qed

lemma rounds_end:
  assumes mu: "is_partition_tuple mu" and v: "valid_state mu mins tab cols"
  shows "\<exists>ys. rounds mu mins tab cols = Some (ys, None)"
  using v
proof (induction "base mu ^ length cols - weight (base mu) cols" arbitrary: tab cols rule: less_induct)
  case less
  note v = less.prems
  show ?case
  proof (cases "find_r cols 1 = length cols")
    case True
    then have "advance mu mins tab cols = Inr None" by (simp add: advance_def)
    then have "rounds mu mins tab cols = Some ([], None)" by (subst rounds.simps) simp
    then show ?thesis by blast
  next
    case False
    from advance_valid [OF mu v False] obtain tab' cols' where
      adv: "advance mu mins tab cols = Inr (Some (tab', cols'))"
      and v': "valid_state mu mins tab' cols'"
      and up: "weight (base mu) cols < weight (base mu) cols'" by blast
    from valid_stateD(4) [OF v] valid_stateD(4) [OF v'] have len: "length cols' = length cols" by simp
    from weight_bound [OF valid_cols_small [OF mu v']] len
    have "weight (base mu) cols' < base mu ^ length cols" by simp
    with up len have "base mu ^ length cols' - weight (base mu) cols'
        < base mu ^ length cols - weight (base mu) cols" by simp
    from less.hyps [OF this v'] obtain ys where "rounds mu mins tab' cols' = Some (ys, None)" by blast
    with adv have "rounds mu mins tab cols = Some (tableau_from_list mu tab' # ys, None)"
      by (subst rounds.simps) simp
    then show ?thesis by blast
  qed
qed

lemma visited_valid:
  assumes "visited mu mins tab cols"
  shows "is_partition_tuple mu \<Longrightarrow> valid_state mu mins tab cols"
  using assms
proof (induction rule: visited.induct)
  case (first mu cols mins)
  from init_cols_mins_written [of mu] first.hyps have "written mu (set (cells mu)) (cols, mins)"
    by auto
  from initial_valid [OF this] show ?case by (simp add: length_cells)
next
  case (round mu mins tab cols tab' cols')
  from round.IH [OF round.prems] have v: "valid_state mu mins tab cols" .
  have "find_r cols 1 \<noteq> length cols"
  proof
    assume "find_r cols 1 = length cols"
    then have "advance mu mins tab cols = Inr None" by (simp add: advance_def)
    with round.hyps(2) show False by simp
  qed
  from advance_valid [OF round.prems v this] round.hyps(2) show ?case by auto
qed

text \<open>
  C2.  For every partition tuple \<open>mu\<close>, the empty ones among them, the iteration of
  \<open>StandardTableauTuples_shape(mu)\<close> comes to an end and no exception ends it; and in every
  state that the loop goes through, when the search for a descent stops at an \<open>r\<close> before
  the end of \<open>cols\<close>, \<open>max_row_in_component(tab, r)\<close> returns an entry and does not fall
  through.
\<close>

theorem shape_iter_never_fails:
  assumes "is_partition_tuple mu"
  shows "(\<exists>ys. StandardTableauTuples_shape_iter mu = Some (ys, None)) \<and>
         (\<forall>mins tab cols. visited mu mins tab cols \<longrightarrow> find_r cols 1 \<noteq> length cols \<longrightarrow>
            (\<exists>s. max_row_in_component mu tab cols (find_r cols 1) = Inr (Some s)))"
proof (intro conjI allI impI)
  from init_cols_mins_written [of mu] obtain cols mins where
    init: "init_cols_mins (shape_size mu) (tableau_from_list mu (initial_tab (shape_size mu)))
             = Inr (cols, mins)"
    and w: "written mu (set (cells mu)) (cols, mins)" by blast
  from initial_valid [OF w] have "valid_state mu mins (initial_tab (shape_size mu)) cols"
    by (simp add: length_cells)
  from rounds_end [OF assms this] obtain ys where
    "rounds mu mins (initial_tab (shape_size mu)) cols = Some (ys, None)" by blast
  with init show "\<exists>ys. StandardTableauTuples_shape_iter mu = Some (ys, None)"
    by (simp add: StandardTableauTuples_shape_iter_def)
next
  fix mins tab cols
  assume "visited mu mins tab cols" and r: "find_r cols 1 \<noteq> length cols"
  from visited_valid [OF this(1) assms] have "valid_state mu mins tab cols" .
  from advance_valid [OF assms this r]
  show "\<exists>s. max_row_in_component mu tab cols (find_r cols 1) = Inr (Some s)" by blast
qed

theorem shape_iter_never_fails_witness:
  "is_partition_tuple [[2, 1], [2]] \<and>
   StandardTableauTuples_shape_iter [[1], [1]] = Some ([[[[1]], [[2]]], [[[2]], [[1]]]], None) \<and>
   (\<exists>ys. StandardTableauTuples_shape_iter [[2, 1], [2]] = Some (ys, None)) \<and>
   visited [[2, 1], [2]] [0, 1, 1, 0, 1] [1, 2, 3, 4, 5] [0, 2, 3, 2, 0, 1] \<and>
   find_r [0, 2, 3, 2, 0, 1] 1 = 3 \<and>
   max_row_in_component [[2, 1], [2]] [1, 2, 3, 4, 5] [0, 2, 3, 2, 0, 1] 3 = Inr (Some 2)"
proof -
  have p: "is_partition_tuple [[2, 1], [2]]"
    by code_simp
  have small: "StandardTableauTuples_shape_iter [[1], [1]] = Some ([[[[1]], [[2]]], [[[2]], [[1]]]], None)"
    by code_simp
  have size: "shape_size [[2, 1], [2]] = 5" "initial_tab 5 = [1, 2, 3, 4, 5]"
    by code_simp+
  have "init_cols_mins (shape_size [[2, 1], [2]])
          (tableau_from_list [[2, 1], [2]] (initial_tab (shape_size [[2, 1], [2]])))
        = Inr ([0, 2, 3, 2, 0, 1], [0, 1, 1, 0, 1])"
    by code_simp
  from visited.first [OF this]
  have vis: "visited [[2, 1], [2]] [0, 1, 1, 0, 1] [1, 2, 3, 4, 5] [0, 2, 3, 2, 0, 1]"
    by (simp only: size)
  have r: "find_r [0, 2, 3, 2, 0, 1] 1 = 3"
    by code_simp
  have m: "max_row_in_component [[2, 1], [2]] [1, 2, 3, 4, 5] [0, 2, 3, 2, 0, 1] 3 = Inr (Some 2)"
    by code_simp
  from shape_iter_never_fails [OF p]
  have "\<exists>ys. StandardTableauTuples_shape_iter [[2, 1], [2]] = Some (ys, None)" by blast
  with p small vis r m show ?thesis by blast
qed

end
